theory Spec2Isabelle
  imports Main "HOL-Library.Sublist"
begin

section \<open>JavaScript values\<close>

text \<open>
  The option objects of both scripts hold arbitrary JavaScript values, and the code
  leans on truthiness (\<^verbatim>\<open>a || b\<close>, \<^verbatim>\<open>!a\<close>) and on string conversion in template
  literals.  The values modelled are \<^verbatim>\<open>undefined\<close>, \<^verbatim>\<open>null\<close>, booleans, integral
  numbers and strings; fractions, NaN, objects and arrays are left out.  A string is
  a list of code units below 256.
\<close>

datatype jsval = JUndefined | JNull | JBool bool | JNum int | JStr string

text \<open>ToBoolean: the falsy values are \<^verbatim>\<open>undefined\<close>, \<^verbatim>\<open>null\<close>, \<^verbatim>\<open>false\<close>, \<^verbatim>\<open>0\<close> and the empty string.\<close>

fun js_truthy :: "jsval \<Rightarrow> bool" where
  "js_truthy JUndefined = False"
| "js_truthy JNull = False"
| "js_truthy (JBool b) = b"
| "js_truthy (JNum n) = (n \<noteq> 0)"
| "js_truthy (JStr s) = (s \<noteq> [])"

text \<open>\<^verbatim>\<open>a || b\<close>: the left operand when it is truthy, the right operand otherwise.\<close>

definition js_or :: "jsval \<Rightarrow> jsval \<Rightarrow> jsval" where
  "js_or a b = (if js_truthy a then a else b)"

text \<open>Decimal digits of a natural number, most significant first, as \<^verbatim>\<open>String(n)\<close> prints them.\<close>

definition digit_char :: "nat \<Rightarrow> char" where
  "digit_char d = ''0123456789'' ! d"

fun nat_to_string :: "nat \<Rightarrow> string" where
  "nat_to_string n =
     (if n < 10 then [digit_char n] else nat_to_string (n div 10) @ [digit_char (n mod 10)])"

definition num_to_string :: "int \<Rightarrow> string" where
  "num_to_string i = (if i < 0 then CHR ''-'' # nat_to_string (nat (- i)) else nat_to_string (nat i))"

text \<open>ToString, as a template literal \<^verbatim>\<open>${v}\<close> applies it.\<close>

fun js_to_string :: "jsval \<Rightarrow> string" where
  "js_to_string JUndefined = ''undefined''"
| "js_to_string JNull = ''null''"
| "js_to_string (JBool b) = (if b then ''true'' else ''false'')"
| "js_to_string (JNum n) = num_to_string n"
| "js_to_string (JStr s) = s"

section \<open>Errors and paths\<close>

text \<open>
  Every \<^verbatim>\<open>throw\<close> of the two scripts, and every failure of a file-system call, is an
  error value.  A path is the list of its components below the top directory.
\<close>

type_synonym path = "string list"

datatype errno = ENOENT | ENOTDIR | EISDIR | EEXIST

datatype error =
    InvalidFormat string   \<comment> \<open>\<^verbatim>\<open>Invalid time format: "<str>" (expected HH:MM)\<close>\<close>
  | InvalidHour int        \<comment> \<open>\<^verbatim>\<open>Invalid hour: <h> (expected 0-23)\<close>\<close>
  | InvalidMinute int      \<comment> \<open>\<^verbatim>\<open>Invalid minute: <m> (expected 0-59)\<close>\<close>
  | MissingTask            \<comment> \<open>\<^verbatim>\<open>--task is required and must be a non-empty string\<close>\<close>
  | InvalidQuality string  \<comment> \<open>carries the message\<close>
  | StorageFailure errno path

section \<open>init-reflector.js: time parsing and cron expressions\<close>

text \<open>\<^verbatim>\<open>\d\<close> matches the ASCII digits only.\<close>

definition is_digit :: "char \<Rightarrow> bool" where
  "is_digit c = (48 \<le> (of_char c :: nat) \<and> (of_char c :: nat) \<le> 57)"

text \<open>
  \<^verbatim>\<open>/^(\d{1,2}):(\d{2})$/.exec(str)\<close>.  The pattern is anchored at both ends, so it
  consumes the whole string.  The greedy \<^verbatim>\<open>\d{1,2}\<close> takes two digits first and
  falls back to one digit when the rest does not match.  The result holds the two
  capture groups.
\<close>

definition time_regex_exec :: "string \<Rightarrow> (string \<times> string) option" where
  "time_regex_exec s =
     (if length s = 5 \<and> is_digit (s ! 0) \<and> is_digit (s ! 1) \<and> s ! 2 = CHR '':''
          \<and> is_digit (s ! 3) \<and> is_digit (s ! 4)
      then Some (take 2 s, drop 3 s)
      else if length s = 4 \<and> is_digit (s ! 0) \<and> s ! 1 = CHR '':''
          \<and> is_digit (s ! 2) \<and> is_digit (s ! 3)
      then Some (take 1 s, drop 2 s)
      else None)"

text \<open>
  \<^verbatim>\<open>parseInt(s, 10)\<close> on a string of digits, which is all the capture groups can
  hold: the decimal value.
\<close>

definition parseInt10 :: "string \<Rightarrow> int" where
  "parseInt10 s = foldl (\<lambda>acc c. 10 * acc + (int (of_char c) - 48)) 0 s"

text \<open>
  \<^verbatim>\<open>parseTime(str)\<close>.  The regular expression converts its argument to a string, and
  the format error quotes that string.
\<close>

definition parseTime :: "jsval \<Rightarrow> error + (int \<times> int)" where
  "parseTime str =
     (case time_regex_exec (js_to_string str) of
        None \<Rightarrow> Inl (InvalidFormat (js_to_string str))
      | Some (g1, g2) \<Rightarrow>
          (let h = parseInt10 g1; m = parseInt10 g2 in
           if h < 0 \<or> h > 23 then Inl (InvalidHour h)
           else if m < 0 \<or> m > 59 then Inl (InvalidMinute m)
           else Inr (h, m)))"

text \<open>\<^verbatim>\<open>timeToCron(time, freq)\<close>: every frequency other than \<^verbatim>\<open>'weekly'\<close> gives the daily form.\<close>

definition timeToCron :: "jsval \<Rightarrow> jsval \<Rightarrow> error + string" where
  "timeToCron time freq =
     (case parseTime time of
        Inl e \<Rightarrow> Inl e
      | Inr (h, m) \<Rightarrow>
          if freq = JStr ''weekly''
          then Inr (num_to_string m @ '' '' @ num_to_string h @ '' * * 0'')
          else Inr (num_to_string m @ '' '' @ num_to_string h @ '' * * *''))"

text \<open>
  The words of the specification, for comparison with \<open>time_regex_exec\<close> and
  \<open>parseInt10\<close>: a string has the shape \<open>hh:mm\<close> when it is a group of one or two
  digits, a colon and a group of exactly two digits; a digit string denotes the number
  given by positional decimal notation.
\<close>

definition hhmm_pattern :: "string \<Rightarrow> string \<Rightarrow> string \<Rightarrow> bool" where
  "hhmm_pattern s hh mm =
     (s = hh @ '':'' @ mm \<and> (length hh = 1 \<or> length hh = 2) \<and> length mm = 2
      \<and> list_all is_digit hh \<and> list_all is_digit mm)"

fun decimal_value :: "string \<Rightarrow> int" where
  "decimal_value [] = 0"
| "decimal_value (c # cs) = (int (of_char c) - 48) * 10 ^ length cs + decimal_value cs"

section \<open>The file system\<close>

text \<open>
  The state both scripts act on: each path is absent, a directory or a regular file
  with its content.  Permissions, links and concurrent writers are not modelled.  A
  state need not hold the parents of the paths it holds; what is proved below is
  proved for every state, those of a real file system among them.
\<close>

datatype node = Dir | File string

type_synonym filesystem = "path \<Rightarrow> node option"

record environment =
  cwd :: path                       \<comment> \<open>\<^verbatim>\<open>process.cwd()\<close>\<close>
  prompts_dir :: path               \<comment> \<open>\<^verbatim>\<open>PROMPTS_DIR\<close>, fixed by the location of the script\<close>
  intl_timezone :: "string option"  \<comment> \<open>what \<^verbatim>\<open>Intl\<close> reports; \<open>None\<close> when it throws\<close>
  now_iso :: string                 \<comment> \<open>\<^verbatim>\<open>new Date().toISOString()\<close>\<close>

fun split_on :: "char \<Rightarrow> string \<Rightarrow> string list" where
  "split_on d [] = [] # []"
| "split_on d (c # cs) =
     (if c = d then [] # split_on d cs
      else (case split_on d cs of [] \<Rightarrow> [c] # [] | x # xs \<Rightarrow> (c # x) # xs))"

text \<open>
  \<^verbatim>\<open>path.join(base, rel)\<close> for a base that is already resolved and a relative path
  without \<^verbatim>\<open>.\<close> and \<^verbatim>\<open>..\<close>, which is all the scripts join.
\<close>

definition path_join :: "path \<Rightarrow> string \<Rightarrow> path" where
  "path_join base rel = base @ filter (\<lambda>c. c \<noteq> []) (split_on CHR ''/'' rel)"

definition dirname :: "path \<Rightarrow> path" where
  "dirname p = butlast p"

definition existsSync :: "filesystem \<Rightarrow> path \<Rightarrow> bool" where
  "existsSync fs p = (fs p \<noteq> None)"

text \<open>
  \<^verbatim>\<open>fs.mkdirSync(p, { recursive: true })\<close>: walking down from the top, every missing
  directory on the way is created; a regular file on the way is an error.
\<close>

fun mkdir_from :: "path \<Rightarrow> string list \<Rightarrow> filesystem \<Rightarrow> (error + unit) \<times> filesystem" where
  "mkdir_from pre [] fs = (Inr (), fs)"
| "mkdir_from pre (c # cs) fs =
     (case fs (pre @ [c]) of
        None \<Rightarrow> mkdir_from (pre @ [c]) cs (fs(pre @ [c] \<mapsto> Dir))
      | Some Dir \<Rightarrow> mkdir_from (pre @ [c]) cs fs
      | Some (File x) \<Rightarrow>
          (Inl (StorageFailure (if cs = [] then EEXIST else ENOTDIR) (pre @ c # cs)), fs))"

definition mkdirSync_recursive :: "path \<Rightarrow> filesystem \<Rightarrow> (error + unit) \<times> filesystem" where
  "mkdirSync_recursive p fs = mkdir_from [] p fs"

text \<open>\<^verbatim>\<open>fs.writeFileSync(p, content)\<close>: the containing directory must exist.\<close>

definition writeFileSync :: "path \<Rightarrow> string \<Rightarrow> filesystem \<Rightarrow> (error + unit) \<times> filesystem" where
  "writeFileSync p content fs =
     (case fs (dirname p) of
        None \<Rightarrow> (Inl (StorageFailure ENOENT p), fs)
      | Some (File x) \<Rightarrow> (Inl (StorageFailure ENOTDIR p), fs)
      | Some Dir \<Rightarrow>
          (case fs p of
             Some Dir \<Rightarrow> (Inl (StorageFailure EISDIR p), fs)
           | Some (File old) \<Rightarrow> (Inr (), fs(p \<mapsto> File content))
           | None \<Rightarrow> (Inr (), fs(p \<mapsto> File content))))"

text \<open>\<^verbatim>\<open>fs.appendFileSync(p, data)\<close>: the file is created when absent, extended otherwise.\<close>

definition appendFileSync :: "path \<Rightarrow> string \<Rightarrow> filesystem \<Rightarrow> (error + unit) \<times> filesystem" where
  "appendFileSync p data fs =
     (case fs (dirname p) of
        None \<Rightarrow> (Inl (StorageFailure ENOENT p), fs)
      | Some (File x) \<Rightarrow> (Inl (StorageFailure ENOTDIR p), fs)
      | Some Dir \<Rightarrow>
          (case fs p of
             Some Dir \<Rightarrow> (Inl (StorageFailure EISDIR p), fs)
           | Some (File old) \<Rightarrow> (Inr (), fs(p \<mapsto> File (old @ data)))
           | None \<Rightarrow> (Inr (), fs(p \<mapsto> File data))))"

definition readFileSync :: "path \<Rightarrow> filesystem \<Rightarrow> error + string" where
  "readFileSync p fs =
     (case fs p of
        None \<Rightarrow> Inl (StorageFailure ENOENT p)
      | Some Dir \<Rightarrow> Inl (StorageFailure EISDIR p)
      | Some (File content) \<Rightarrow> Inr content)"

section \<open>init-reflector.js: initialization\<close>

definition DEFAULTS_dailyTime :: string where
  "DEFAULTS_dailyTime = ''03:30''"

definition DEFAULTS_weeklyTime :: string where
  "DEFAULTS_weeklyTime = ''03:00''"

definition unlines :: "string list \<Rightarrow> string" where
  "unlines ls = concat (map (\<lambda>l. l @ [CHR 0x0A]) ls)"

definition principlesTemplate :: string where
  "principlesTemplate = unlines
    [''# PRINCIPLES.md - Decision-Making Framework'',
     '''',
     ''*Principles are earned through experience and validated by outcomes.*'',
     ''*Add them when evidence supports them. Retire them when they stop being useful.*'',
     '''',
     ''---'',
     '''',
     ''## How This File Works'',
     '''',
     ''Each principle should:'',
     ''1. **Guide decisions** when multiple good options conflict'',
     ''2. **Be specific enough** to change observable behavior'',
     ''3. **Include its origin** - what happened that created it'',
     ''4. **Show evidence** - what outcomes support it'',
     '''',
     ''A principle that doesn'' @ [CHR 0x27] @ ''t change how you act isn'' @ [CHR 0x27]
        @ ''t a principle. It'' @ [CHR 0x27] @ ''s a platitude.'',
     '''',
     ''---'',
     '''',
     ''<!-- Add your first principle after your first meaningful correction or insight.'',
     '''',
     ''Template:'',
     '''',
     ''## [Principle Name]'',
     '''',
     ''[What this principle means and why it matters. 2-3 sentences.]'',
     '''',
     ''**Origin:** [What happened that led to this principle]'',
     '''',
     ''**In practice:** [Concrete behavioral guidance - when and how to apply it]'',
     '''',
     ''---'',
     '''',
     ''-->'',
     '''',
     ''*This file evolves. The weekly review process proposes changes based on*'',
     ''*outcome data. Every addition, modification, and retirement is logged in*'',
     ''*memory/reflector/principles-history.jsonl.*'']"

definition loadPrompt :: "environment \<Rightarrow> string \<Rightarrow> filesystem \<Rightarrow> error + string" where
  "loadPrompt env name fs = readFileSync (path_join (prompts_dir env) name) fs"

definition detectTimezone :: "environment \<Rightarrow> string" where
  "detectTimezone env = (case intl_timezone env of Some tz \<Rightarrow> tz | None \<Rightarrow> ''UTC'')"

record init_opts =
  opt_root :: "path option"   \<comment> \<open>\<open>None\<close>: no root given\<close>
  opt_dryRun :: jsval
  opt_skipCron :: jsval
  opt_timezone :: jsval
  opt_dailyTime :: jsval
  opt_weeklyTime :: jsval

record schedule =
  cron :: string
  schedule_timezone :: jsval
  prompt :: string

record report =
  root :: path
  timezone :: jsval
  dailyTime :: jsval
  weeklyTime :: jsval
  dryRun :: jsval
  created :: "string list"
  existed :: "string list"
  prompts :: "(schedule \<times> schedule) option"   \<comment> \<open>daily and weekly; \<open>None\<close> is \<^verbatim>\<open>{}\<close>\<close>

definition dirs :: "string list" where
  "dirs = [''memory'', ''memory/reflector'', ''memory/reflector/weekly-summaries'']"

definition files :: "(string \<times> string) list" where
  "files = [(''PRINCIPLES.md'', principlesTemplate),
            (''memory/reflector/outcomes.jsonl'', ''''),
            (''memory/reflector/principles-history.jsonl'', '''')]"

text \<open>
  The two loops of \<^verbatim>\<open>init\<close>, over the directories and over the files.  A failing
  file-system call ends the run with what has been done so far.  The lines sent to
  the \<^verbatim>\<open>log\<close> callback are not modelled.
\<close>

fun init_dirs :: "jsval \<Rightarrow> path \<Rightarrow> string list \<Rightarrow> report \<Rightarrow> filesystem
    \<Rightarrow> (error + report) \<times> filesystem" where
  "init_dirs dry r [] rep fs = (Inr rep, fs)"
| "init_dirs dry r (rel # rels) rep fs =
     (let abs = path_join r rel in
      if existsSync fs abs
      then init_dirs dry r rels (rep\<lparr>existed := existed rep @ [rel @ ''/'']\<rparr>) fs
      else if \<not> js_truthy dry
      then (case mkdirSync_recursive abs fs of
              (Inl e, fs') \<Rightarrow> (Inl e, fs')
            | (Inr u, fs') \<Rightarrow>
                init_dirs dry r rels (rep\<lparr>created := created rep @ [rel @ ''/'']\<rparr>) fs')
      else init_dirs dry r rels (rep\<lparr>created := created rep @ [rel @ ''/'']\<rparr>) fs)"

fun init_files :: "jsval \<Rightarrow> path \<Rightarrow> (string \<times> string) list \<Rightarrow> report \<Rightarrow> filesystem
    \<Rightarrow> (error + report) \<times> filesystem" where
  "init_files dry r [] rep fs = (Inr rep, fs)"
| "init_files dry r ((rel, content) # rest) rep fs =
     (let abs = path_join r rel in
      if existsSync fs abs
      then init_files dry r rest (rep\<lparr>existed := existed rep @ [rel]\<rparr>) fs
      else if \<not> js_truthy dry
      then (case writeFileSync abs content fs of
              (Inl e, fs') \<Rightarrow> (Inl e, fs')
            | (Inr u, fs') \<Rightarrow>
                init_files dry r rest (rep\<lparr>created := created rep @ [rel]\<rparr>) fs')
      else init_files dry r rest (rep\<lparr>created := created rep @ [rel]\<rparr>) fs)"

text \<open>The cron part of \<^verbatim>\<open>init\<close>, which leaves the file system alone.\<close>

definition init_prompts :: "environment \<Rightarrow> jsval \<Rightarrow> jsval \<Rightarrow> jsval \<Rightarrow> report \<Rightarrow> filesystem
    \<Rightarrow> error + report" where
  "init_prompts env tz daily weekly rep fs =
     (case loadPrompt env ''daily-review.txt'' fs of
        Inl e \<Rightarrow> Inl e
      | Inr dailyPrompt \<Rightarrow>
     (case loadPrompt env ''weekly-refinement.txt'' fs of
        Inl e \<Rightarrow> Inl e
      | Inr weeklyPrompt \<Rightarrow>
     (case timeToCron daily (JStr ''daily'') of
        Inl e \<Rightarrow> Inl e
      | Inr dailyCron \<Rightarrow>
     (case timeToCron weekly (JStr ''weekly'') of
        Inl e \<Rightarrow> Inl e
      | Inr weeklyCron \<Rightarrow>
          Inr (rep\<lparr>prompts := Some
            (\<lparr>cron = dailyCron, schedule_timezone = tz, prompt = dailyPrompt\<rparr>,
             \<lparr>cron = weeklyCron, schedule_timezone = tz, prompt = weeklyPrompt\<rparr>)\<rparr>)))))"

definition init :: "environment \<Rightarrow> init_opts \<Rightarrow> filesystem \<Rightarrow> (error + report) \<times> filesystem" where
  "init env opts fs =
     (let dry = js_or (opt_dryRun opts) (JBool False);
          skipCron = js_or (opt_skipCron opts) (JBool False);
          tz = js_or (opt_timezone opts) (JStr (detectTimezone env));
          daily = js_or (opt_dailyTime opts) (JStr DEFAULTS_dailyTime);
          weekly = js_or (opt_weeklyTime opts) (JStr DEFAULTS_weeklyTime);
          r = (case opt_root opts of Some given \<Rightarrow> given | None \<Rightarrow> cwd env)
      in case parseTime daily of
           Inl e \<Rightarrow> (Inl e, fs)
         | Inr hm \<Rightarrow>
        (case parseTime weekly of
           Inl e \<Rightarrow> (Inl e, fs)
         | Inr hm' \<Rightarrow>
        (case init_dirs dry r dirs
                \<lparr>root = r, timezone = tz, dailyTime = daily, weeklyTime = weekly, dryRun = dry,
                 created = [], existed = [], prompts = None\<rparr> fs of
           (Inl e, fs1) \<Rightarrow> (Inl e, fs1)
         | (Inr rep1, fs1) \<Rightarrow>
        (case init_files dry r files rep1 fs1 of
           (Inl e, fs2) \<Rightarrow> (Inl e, fs2)
         | (Inr rep2, fs2) \<Rightarrow>
             if \<not> js_truthy skipCron
             then (case init_prompts env tz daily weekly rep2 fs2 of
                     Inl e \<Rightarrow> (Inl e, fs2)
                   | Inr rep3 \<Rightarrow> (Inr rep3, fs2))
             else (Inr rep2, fs2)))))"

section \<open>log-outcome.js: entry construction\<close>

text \<open>The members of the \<^verbatim>\<open>QUALITY_TYPES\<close> set, in insertion order.\<close>

definition QUALITY_TYPES :: "string list" where
  "QUALITY_TYPES = [''correction'', ''edit'', ''praise'', ''silence'', ''unknown'']"

text \<open>\<^verbatim>\<open>QUALITY_TYPES.has(v)\<close>: only a string equal to a member is in the set.\<close>

fun QUALITY_TYPES_has :: "jsval \<Rightarrow> bool" where
  "QUALITY_TYPES_has (JStr s) = (s \<in> set QUALITY_TYPES)"
| "QUALITY_TYPES_has v = False"

text \<open>\<^verbatim>\<open>xs.join(sep)\<close>\<close>

fun join_with :: "string \<Rightarrow> string list \<Rightarrow> string" where
  "join_with sep [] = []"
| "join_with sep [x] = x"
| "join_with sep (x # y # ys) = x @ sep @ join_with sep (y # ys)"

text \<open>
  \<^verbatim>\<open>s.trim()\<close> removes white space and line terminators from both ends; below 256
  these are the code units 9 to 13, 32 and 160.
\<close>

definition is_js_space :: "char \<Rightarrow> bool" where
  "is_js_space c = ((of_char c :: nat) \<in> {9, 10, 11, 12, 13, 32, 160})"

definition js_trim :: "string \<Rightarrow> string" where
  "js_trim s = rev (dropWhile is_js_space (rev (dropWhile is_js_space s)))"

text \<open>\<^verbatim>\<open>typeof v === 'string'\<close>, and the string behind such a value.\<close>

fun is_string :: "jsval \<Rightarrow> bool" where
  "is_string (JStr s) = True"
| "is_string v = False"

fun string_of :: "jsval \<Rightarrow> string" where
  "string_of (JStr s) = s"
| "string_of v = []"

record log_opts =
  in_task :: jsval
  in_quality :: jsval
  in_timestamp :: jsval
  in_channel :: jsval
  in_delta :: jsval
  in_lesson :: jsval
  in_principleCandidate :: jsval
  in_root :: "path option"   \<comment> \<open>\<open>None\<close>: no root given\<close>

record entry =
  timestamp :: jsval
  task :: jsval
  channel :: jsval
  outputQuality :: jsval
  delta :: jsval
  lesson :: jsval
  principleCandidate :: jsval

definition quality_message :: "jsval \<Rightarrow> string" where
  "quality_message q =
     ''--quality must be one of: '' @ join_with '', '' QUALITY_TYPES
       @ '' (got: '' @ [CHR 0x22] @ js_to_string (js_or q (JStr '''')) @ [CHR 0x22] @ '')''"

definition buildEntry :: "environment \<Rightarrow> log_opts \<Rightarrow> error + entry" where
  "buildEntry env opts =
     (if \<not> js_truthy (in_task opts) \<or> \<not> is_string (in_task opts)
          \<or> \<not> js_truthy (JStr (js_trim (string_of (in_task opts))))
      then Inl MissingTask
      else if \<not> js_truthy (in_quality opts) \<or> \<not> QUALITY_TYPES_has (in_quality opts)
      then Inl (InvalidQuality (quality_message (in_quality opts)))
      else Inr \<lparr>timestamp = js_or (in_timestamp opts) (JStr (now_iso env)),
                task = JStr (js_trim (string_of (in_task opts))),
                channel = js_or (in_channel opts) JNull,
                outputQuality = in_quality opts,
                delta = js_or (in_delta opts) JNull,
                lesson = js_or (in_lesson opts) JNull,
                principleCandidate =
                  js_or (in_principleCandidate opts) (JBool (in_quality opts = JStr ''correction''))\<rparr>)"

section \<open>log-outcome.js: appending to the log\<close>

definition DEFAULT_LOG_DIR :: string where
  "DEFAULT_LOG_DIR = ''memory/reflector''"

definition LOG_FILENAME :: string where
  "LOG_FILENAME = ''outcomes.jsonl''"

text \<open>
  \<^verbatim>\<open>JSON.stringify\<close> on a string: quotes, with the quote, the backslash and the
  control characters escaped.
\<close>

definition hex_digit :: "nat \<Rightarrow> char" where
  "hex_digit d = ''0123456789abcdef'' ! d"

definition json_escape_char :: "char \<Rightarrow> string" where
  "json_escape_char c =
     (if c = CHR 0x22 then [CHR 0x5C, CHR 0x22]
      else if c = CHR 0x5C then [CHR 0x5C, CHR 0x5C]
      else if c = CHR 0x08 then [CHR 0x5C, CHR ''b'']
      else if c = CHR 0x0C then [CHR 0x5C, CHR ''f'']
      else if c = CHR 0x0A then [CHR 0x5C, CHR ''n'']
      else if c = CHR 0x0D then [CHR 0x5C, CHR ''r'']
      else if c = CHR 0x09 then [CHR 0x5C, CHR ''t'']
      else if (of_char c :: nat) < 32
      then [CHR 0x5C, CHR ''u'', CHR ''0'', CHR ''0'',
            hex_digit (of_char c div 16), hex_digit (of_char c mod 16)]
      else [c])"

definition json_quote :: "string \<Rightarrow> string" where
  "json_quote s = CHR 0x22 # concat (map json_escape_char s) @ [CHR 0x22]"

text \<open>\<^verbatim>\<open>JSON.stringify\<close> on a value; \<open>None\<close> for \<^verbatim>\<open>undefined\<close>, which has no JSON text.\<close>

fun json_value :: "jsval \<Rightarrow> string option" where
  "json_value JUndefined = None"
| "json_value JNull = Some ''null''"
| "json_value (JBool b) = Some (if b then ''true'' else ''false'')"
| "json_value (JNum n) = Some (num_to_string n)"
| "json_value (JStr s) = Some (json_quote s)"

text \<open>A property of an object: left out when its value is \<^verbatim>\<open>undefined\<close>.\<close>

definition json_member :: "string \<Rightarrow> jsval \<Rightarrow> string list" where
  "json_member k v = (case json_value v of None \<Rightarrow> [] | Some t \<Rightarrow> [json_quote k @ '':'' @ t])"

text \<open>The properties of an entry, in the order \<^verbatim>\<open>buildEntry\<close> writes them.\<close>

definition entry_members :: "entry \<Rightarrow> (string \<times> jsval) list" where
  "entry_members e =
     [(''timestamp'', timestamp e), (''task'', task e), (''channel'', channel e),
      (''outputQuality'', outputQuality e), (''delta'', delta e), (''lesson'', lesson e),
      (''principleCandidate'', principleCandidate e)]"

definition JSON_stringify :: "entry \<Rightarrow> string" where
  "JSON_stringify e =
     ''{'' @ join_with '','' (concat (map (\<lambda>(k, v). json_member k v) (entry_members e))) @ ''}''"

definition appendEntry :: "environment \<Rightarrow> entry \<Rightarrow> path option \<Rightarrow> filesystem
    \<Rightarrow> (error + path) \<times> filesystem" where
  "appendEntry env e opts_root fs =
     (let r = (case opts_root of Some given \<Rightarrow> given | None \<Rightarrow> cwd env);
          logPath = path_join (path_join r DEFAULT_LOG_DIR) LOG_FILENAME;
          dir = dirname logPath
      in case (if \<not> existsSync fs dir then mkdirSync_recursive dir fs else (Inr (), fs)) of
           (Inl err, fs1) \<Rightarrow> (Inl err, fs1)
         | (Inr u, fs1) \<Rightarrow>
        (case appendFileSync logPath (JSON_stringify e @ [CHR 0x0A]) fs1 of
           (Inl err, fs2) \<Rightarrow> (Inl err, fs2)
         | (Inr u', fs2) \<Rightarrow> (Inr logPath, fs2)))"

text \<open>\<^verbatim>\<open>log(opts)\<close>: validate and build, then append, and return the entry.\<close>

definition log :: "environment \<Rightarrow> log_opts \<Rightarrow> filesystem \<Rightarrow> (error + entry) \<times> filesystem" where
  "log env opts fs =
     (case buildEntry env opts of
        Inl err \<Rightarrow> (Inl err, fs)
      | Inr e \<Rightarrow>
        (case appendEntry env e (in_root opts) fs of
           (Inl err, fs') \<Rightarrow> (Inl err, fs')
         | (Inr logPath, fs') \<Rightarrow> (Inr e, fs')))"

section \<open>Reading the log back\<close>

text \<open>
  The log is read one line at a time, each line with \<^verbatim>\<open>JSON.parse\<close>.  The parser below
  covers the texts \<^verbatim>\<open>JSON.stringify\<close> can emit for an entry: an object without white
  space whose members are strings, integral numbers, booleans or \<^verbatim>\<open>null\<close>.  Its fuel
  bounds the number of members and is the length of the text.
\<close>

definition hex_value :: "char \<Rightarrow> nat option" where
  "hex_value c =
     (let n = (of_char c :: nat) in
      if 48 \<le> n \<and> n \<le> 57 then Some (n - 48)
      else if 97 \<le> n \<and> n \<le> 102 then Some (n - 87)
      else if 65 \<le> n \<and> n \<le> 70 then Some (n - 55)
      else None)"

definition hex_byte :: "char \<Rightarrow> char \<Rightarrow> nat option" where
  "hex_byte a b =
     (case hex_value a of
        None \<Rightarrow> None
      | Some h \<Rightarrow> (case hex_value b of None \<Rightarrow> None | Some l \<Rightarrow> Some (16 * h + l)))"

text \<open>The character that a backslash and \<open>e\<close> stand for.\<close>

definition json_unescape :: "char \<Rightarrow> char option" where
  "json_unescape e =
     (if e = CHR 0x22 then Some (CHR 0x22)
      else if e = CHR 0x5C then Some (CHR 0x5C)
      else if e = CHR ''/'' then Some (CHR ''/'')
      else if e = CHR ''b'' then Some (CHR 0x08)
      else if e = CHR ''f'' then Some (CHR 0x0C)
      else if e = CHR ''n'' then Some (CHR 0x0A)
      else if e = CHR ''r'' then Some (CHR 0x0D)
      else if e = CHR ''t'' then Some (CHR 0x09)
      else None)"

text \<open>
  A string literal after its opening quote: the decoded string and the rest of the
  text after the closing quote.  A \<^verbatim>\<open>\u\<close> escape above 255 is outside the strings
  modelled here.
\<close>

fun parse_string_body :: "string \<Rightarrow> (string \<times> string) option" where
  "parse_string_body [] = None"
| "parse_string_body (c # cs) =
     (if c = CHR 0x22 then Some ([], cs)
      else if c = CHR 0x5C then
        (case cs of
           [] \<Rightarrow> None
         | e # rest \<Rightarrow>
             if e = CHR ''u'' then
               (case rest of
                  a # b # x # y # rest' \<Rightarrow>
                    (case hex_byte a b of
                       None \<Rightarrow> None
                     | Some hi \<Rightarrow>
                    (case hex_byte x y of
                       None \<Rightarrow> None
                     | Some lo \<Rightarrow>
                         if hi = 0
                         then (case parse_string_body rest' of
                                 None \<Rightarrow> None
                               | Some (s, r) \<Rightarrow> Some (char_of lo # s, r))
                         else None))
                | _ \<Rightarrow> None)
             else
               (case json_unescape e of
                  None \<Rightarrow> None
                | Some d \<Rightarrow>
                    (case parse_string_body rest of
                       None \<Rightarrow> None
                     | Some (s, r) \<Rightarrow> Some (d # s, r))))
      else if (of_char c :: nat) < 32 then None
      else (case parse_string_body cs of
              None \<Rightarrow> None
            | Some (s, r) \<Rightarrow> Some (c # s, r)))"

definition parse_number :: "string \<Rightarrow> (int \<times> string) option" where
  "parse_number s =
     (let neg = (s \<noteq> [] \<and> hd s = CHR ''-'');
          t = (if neg then tl s else s);
          ds = takeWhile is_digit t
      in if ds = [] then None
         else Some (if neg then - parseInt10 ds else parseInt10 ds, dropWhile is_digit t))"

definition parse_value :: "string \<Rightarrow> (jsval \<times> string) option" where
  "parse_value s =
     (if take 4 s = ''null'' then Some (JNull, drop 4 s)
      else if take 4 s = ''true'' then Some (JBool True, drop 4 s)
      else if take 5 s = ''false'' then Some (JBool False, drop 5 s)
      else if s \<noteq> [] \<and> hd s = CHR 0x22
      then (case parse_string_body (tl s) of None \<Rightarrow> None | Some (v, r) \<Rightarrow> Some (JStr v, r))
      else (case parse_number s of None \<Rightarrow> None | Some (n, r) \<Rightarrow> Some (JNum n, r)))"

text \<open>The members of an object up to and including the closing brace.\<close>

fun parse_members :: "nat \<Rightarrow> string \<Rightarrow> ((string \<times> jsval) list \<times> string) option" where
  "parse_members 0 s = None"
| "parse_members (Suc n) s =
     (if s = [] \<or> hd s \<noteq> CHR 0x22 then None
      else (case parse_string_body (tl s) of
              None \<Rightarrow> None
            | Some (k, s1) \<Rightarrow>
                if s1 = [] \<or> hd s1 \<noteq> CHR '':'' then None
                else (case parse_value (tl s1) of
                        None \<Rightarrow> None
                      | Some (v, s2) \<Rightarrow>
                          if s2 = [] then None
                          else if hd s2 = CHR ''}'' then Some ([(k, v)], tl s2)
                          else if hd s2 = CHR '','' then
                            (case parse_members n (tl s2) of
                               None \<Rightarrow> None
                             | Some (kvs, r) \<Rightarrow> Some ((k, v) # kvs, r))
                          else None)))"

definition parse_object :: "string \<Rightarrow> (string \<times> jsval) list option" where
  "parse_object s =
     (if s = [] \<or> hd s \<noteq> CHR ''{'' then None
      else if tl s = ''}'' then Some []
      else (case parse_members (length s) (tl s) of
              None \<Rightarrow> None
            | Some (kvs, r) \<Rightarrow> if r = [] then Some kvs else None))"

text \<open>\<^verbatim>\<open>obj[k]\<close>: the last member with that key, \<^verbatim>\<open>undefined\<close> when there is none.\<close>

definition object_get :: "(string \<times> jsval) list \<Rightarrow> string \<Rightarrow> jsval" where
  "object_get kvs k = (case map_of (rev kvs) k of None \<Rightarrow> JUndefined | Some v \<Rightarrow> v)"

definition parse_entry :: "string \<Rightarrow> entry option" where
  "parse_entry line =
     (case parse_object line of
        None \<Rightarrow> None
      | Some kvs \<Rightarrow>
          Some \<lparr>timestamp = object_get kvs ''timestamp'', task = object_get kvs ''task'',
                channel = object_get kvs ''channel'', outputQuality = object_get kvs ''outputQuality'',
                delta = object_get kvs ''delta'', lesson = object_get kvs ''lesson'',
                principleCandidate = object_get kvs ''principleCandidate''\<rparr>)"

text \<open>
  The lines of the log as a reader takes them: the text split at line feeds, empty
  pieces dropped.
\<close>

definition log_lines :: "string \<Rightarrow> string list" where
  "log_lines text = filter (\<lambda>l. l \<noteq> []) (split_on (CHR 0x0A) text)"

section \<open>The outcome log in the file system\<close>

definition log_root :: "environment \<Rightarrow> path option \<Rightarrow> path" where
  "log_root env opts_root = (case opts_root of Some given \<Rightarrow> given | None \<Rightarrow> cwd env)"

definition log_path :: "path \<Rightarrow> path" where
  "log_path r = path_join (path_join r DEFAULT_LOG_DIR) LOG_FILENAME"

definition log_text :: "filesystem \<Rightarrow> path \<Rightarrow> string" where
  "log_text fs r = (case fs (log_path r) of Some (File text) \<Rightarrow> text | _ \<Rightarrow> [])"

fun is_file :: "node option \<Rightarrow> bool" where
  "is_file (Some (File text)) = True"
| "is_file n = False"

text \<open>
  A state in which the log can be appended to: no regular file stands where the log
  directory or one of the directories above it should be, and the log itself is not
  a directory.
\<close>

definition appendable :: "filesystem \<Rightarrow> path \<Rightarrow> bool" where
  "appendable fs r =
     (list_all (\<lambda>q. \<not> is_file (fs q)) (prefixes (dirname (log_path r)))
      \<and> fs (log_path r) \<noteq> Some Dir)"

text \<open>Calls of \<^verbatim>\<open>appendEntry\<close> one after the other, ended by the first that fails.\<close>

fun append_all :: "environment \<Rightarrow> entry list \<Rightarrow> path option \<Rightarrow> filesystem
    \<Rightarrow> (error + unit) \<times> filesystem" where
  "append_all env [] opts_root fs = (Inr (), fs)"
| "append_all env (e # es) opts_root fs =
     (case appendEntry env e opts_root fs of
        (Inl err, fs') \<Rightarrow> (Inl err, fs')
      | (Inr p, fs') \<Rightarrow> append_all env es opts_root fs')"

section \<open>What a run of init reports, told from the state it starts in\<close>

text \<open>
  The root directory a call works on, whether a tracked path is present below it,
  and the two lists a report should hold: directories carry a trailing slash, and
  both lists follow the order of \<open>dirs\<close> and then \<open>files\<close>.
\<close>

definition root_of :: "environment \<Rightarrow> init_opts \<Rightarrow> path" where
  "root_of env opts = (case opt_root opts of Some given \<Rightarrow> given | None \<Rightarrow> cwd env)"

definition present :: "filesystem \<Rightarrow> path \<Rightarrow> string \<Rightarrow> bool" where
  "present fs r rel = existsSync fs (path_join r rel)"

definition dir_label :: "string \<Rightarrow> string" where
  "dir_label rel = rel @ ''/''"

definition expected_existed :: "filesystem \<Rightarrow> path \<Rightarrow> string list" where
  "expected_existed fs r =
     map dir_label (filter (present fs r) dirs) @ filter (present fs r) (map fst files)"

definition expected_created :: "filesystem \<Rightarrow> path \<Rightarrow> string list" where
  "expected_created fs r =
     map dir_label (filter (\<lambda>rel. \<not> present fs r rel) dirs)
       @ filter (\<lambda>rel. \<not> present fs r rel) (map fst files)"

text \<open>A list of paths in which no path is a prefix of an earlier one.\<close>

fun parents_first :: "path list \<Rightarrow> bool" where
  "parents_first [] = True"
| "parents_first (p # ps) = (list_all (\<lambda>q. \<not> prefix q p) ps \<and> parents_first ps)"

text \<open>
  The option values a call of \<^verbatim>\<open>init\<close> resolves before it does anything else, each
  with its default, and the report it starts from.
\<close>

definition resolved_dryRun :: "init_opts \<Rightarrow> jsval" where
  "resolved_dryRun opts = js_or (opt_dryRun opts) (JBool False)"

definition resolved_skipCron :: "init_opts \<Rightarrow> jsval" where
  "resolved_skipCron opts = js_or (opt_skipCron opts) (JBool False)"

definition resolved_timezone :: "environment \<Rightarrow> init_opts \<Rightarrow> jsval" where
  "resolved_timezone env opts = js_or (opt_timezone opts) (JStr (detectTimezone env))"

definition resolved_dailyTime :: "init_opts \<Rightarrow> jsval" where
  "resolved_dailyTime opts = js_or (opt_dailyTime opts) (JStr DEFAULTS_dailyTime)"

definition resolved_weeklyTime :: "init_opts \<Rightarrow> jsval" where
  "resolved_weeklyTime opts = js_or (opt_weeklyTime opts) (JStr DEFAULTS_weeklyTime)"

definition empty_report :: "environment \<Rightarrow> init_opts \<Rightarrow> report" where
  "empty_report env opts =
     \<lparr>root = root_of env opts, timezone = resolved_timezone env opts,
      dailyTime = resolved_dailyTime opts, weeklyTime = resolved_weeklyTime opts,
      dryRun = resolved_dryRun opts, created = [], existed = [], prompts = None\<rparr>"

section \<open>Example states\<close>

text \<open>
  An environment, a call of \<^verbatim>\<open>init\<close> with the root \<^verbatim>\<open>/w\<close> and \<^verbatim>\<open>skipCron\<close> set, and a
  file system that holds the empty directory \<^verbatim>\<open>/w\<close> and nothing else.
\<close>

definition example_env :: environment where
  "example_env =
     \<lparr>cwd = [''home''], prompts_dir = [''skill'', ''prompts''], intl_timezone = Some ''UTC'',
      now_iso = ''2026-01-15T10:00:00.000Z''\<rparr>"

definition example_opts :: init_opts where
  "example_opts =
     \<lparr>opt_root = Some [''w''], opt_dryRun = JUndefined, opt_skipCron = JBool True,
      opt_timezone = JUndefined, opt_dailyTime = JUndefined, opt_weeklyTime = JUndefined\<rparr>"

definition fresh_root :: filesystem where
  "fresh_root = Map.empty([] \<mapsto> Dir, [''w''] \<mapsto> Dir)"

section \<open>Decimal notation\<close>

declare nat_to_string.simps [simp del]

lemma of_char_digit_char: "d < 10 \<Longrightarrow> of_char (digit_char d) = (48 + d :: nat)"
proof -
  assume "d < 10"
  then have "d \<in> {0, 1, 2, 3, 4, 5, 6, 7, 8, 9}" by auto
  then show ?thesis by (auto simp: digit_char_def)
qed

lemma foldl_decimal:
  "foldl (\<lambda>acc c. 10 * acc + (int (of_char c) - 48)) a s = a * 10 ^ length s + decimal_value s"
  by (induction s arbitrary: a) (simp_all add: algebra_simps)

lemma parseInt10_decimal_value: "parseInt10 s = decimal_value s"
  by (simp add: parseInt10_def foldl_decimal)

lemma parseInt10_snoc: "parseInt10 (s @ [c]) = 10 * parseInt10 s + (int (of_char c) - 48)"
  by (simp add: parseInt10_def)

text \<open>Printing a number and reading it back gives the number.\<close>

lemma parseInt10_nat_to_string: "parseInt10 (nat_to_string n) = int n"
proof (induction n rule: nat_to_string.induct)
  case (1 n)
  show ?case
  proof (cases "n < 10")
    case True
    then show ?thesis
      using of_char_digit_char[of n] by (simp add: parseInt10_def nat_to_string.simps)
  next
    case False
    have "n mod 10 < 10" by simp
    then have d: "of_char (digit_char (n mod 10)) = (48 + n mod 10 :: nat)"
      by (rule of_char_digit_char)
    have "parseInt10 (nat_to_string n) =
        10 * parseInt10 (nat_to_string (n div 10)) + (int (of_char (digit_char (n mod 10))) - 48)"
      using False by (subst nat_to_string.simps) (simp add: parseInt10_snoc)
    also have "\<dots> = 10 * int (n div 10) + int (n mod 10)"
      using 1 False d by simp
    also have "\<dots> = int n" by presburger
    finally show ?thesis .
  qed
qed

lemma decimal_value_nonneg: "list_all is_digit s \<Longrightarrow> 0 \<le> decimal_value s"
  by (induction s) (auto simp: is_digit_def)

section \<open>Time parsing\<close>

lemma time_regex_exec_iff: "time_regex_exec s = Some (g1, g2) \<longleftrightarrow> hhmm_pattern s g1 g2"
proof
  assume "time_regex_exec s = Some (g1, g2)"
  then show "hhmm_pattern s g1 g2"
    unfolding time_regex_exec_def hhmm_pattern_def
    by (auto simp: length_Suc_conv eval_nat_numeral split: if_splits)
next
  assume "hhmm_pattern s g1 g2"
  then show "time_regex_exec s = Some (g1, g2)"
    unfolding time_regex_exec_def hhmm_pattern_def
    by (auto simp: length_Suc_conv eval_nat_numeral is_digit_def)
qed

lemma time_regex_exec_None: "time_regex_exec s = None \<longleftrightarrow> \<not> (\<exists>hh mm. hhmm_pattern s hh mm)"
proof (cases "time_regex_exec s")
  case None
  then show ?thesis using time_regex_exec_iff[of s] by auto
next
  case (Some g)
  then show ?thesis using time_regex_exec_iff[of s "fst g" "snd g"] by auto
qed

lemma parseTime_matched:
  assumes "hhmm_pattern s hh mm"
  shows "parseTime (JStr s) =
    (if decimal_value hh > 23 then Inl (InvalidHour (decimal_value hh))
     else if decimal_value mm > 59 then Inl (InvalidMinute (decimal_value mm))
     else Inr (decimal_value hh, decimal_value mm))"
proof -
  from assms have ex: "time_regex_exec s = Some (hh, mm)" by (simp add: time_regex_exec_iff)
  from assms have "0 \<le> decimal_value hh" "0 \<le> decimal_value mm"
    by (auto simp: hhmm_pattern_def decimal_value_nonneg)
  then show ?thesis
    by (auto simp: parseTime_def ex parseInt10_decimal_value Let_def)
qed

lemma parseTime_unmatched:
  assumes "\<not> (\<exists>hh mm. hhmm_pattern s hh mm)"
  shows "parseTime (JStr s) = Inl (InvalidFormat s)"
proof -
  from assms have "time_regex_exec s = None" by (simp add: time_regex_exec_None)
  then show ?thesis by (simp add: parseTime_def)
qed

text \<open>
  C7.  For every string \<open>s\<close>: when \<open>s\<close> is a group of one or two digits, a colon and a
  group of exactly two digits, with the hour group denoting a number of at most 23
  and the minute group a number of at most 59, \<open>parseTime\<close> returns exactly that pair
  of numbers.  Otherwise it fails: with \<open>InvalidFormat\<close> when \<open>s\<close> has not that shape,
  with \<open>InvalidHour\<close> when it has the shape and the hour exceeds 23, and with
  \<open>InvalidMinute\<close> when the hour is in range and the minute exceeds 59.
\<close>

theorem parseTime_spec:
  "(hhmm_pattern s hh mm \<and> decimal_value hh \<le> 23 \<and> decimal_value mm \<le> 59
      \<longrightarrow> parseTime (JStr s) = Inr (decimal_value hh, decimal_value mm))
   \<and> (\<not> (\<exists>hh mm. hhmm_pattern s hh mm) \<longrightarrow> parseTime (JStr s) = Inl (InvalidFormat s))
   \<and> (hhmm_pattern s hh mm \<and> decimal_value hh > 23
      \<longrightarrow> parseTime (JStr s) = Inl (InvalidHour (decimal_value hh)))
   \<and> (hhmm_pattern s hh mm \<and> decimal_value hh \<le> 23 \<and> decimal_value mm > 59
      \<longrightarrow> parseTime (JStr s) = Inl (InvalidMinute (decimal_value mm)))"
  using parseTime_matched[of s hh mm] parseTime_unmatched[of s] by auto

lemma hhmm_pattern_no_colon: "CHR '':'' \<notin> set s \<Longrightarrow> \<not> hhmm_pattern s hh mm"
  by (auto simp: hhmm_pattern_def)

theorem parseTime_spec_witness:
  "parseTime (JStr ''03:30'') = Inr (3, 30)
   \<and> parseTime (JStr ''0:00'') = Inr (0, 0)
   \<and> parseTime (JStr ''23:59'') = Inr (23, 59)
   \<and> parseTime (JStr ''abc'') = Inl (InvalidFormat ''abc'')
   \<and> parseTime (JStr ''25:00'') = Inl (InvalidHour 25)
   \<and> parseTime (JStr ''12:60'') = Inl (InvalidMinute 60)"
proof -
  have p1: "hhmm_pattern ''03:30'' ''03'' ''30''" by (simp add: hhmm_pattern_def is_digit_def)
  have p2: "hhmm_pattern ''0:00'' ''0'' ''00''" by (simp add: hhmm_pattern_def is_digit_def)
  have p3: "hhmm_pattern ''23:59'' ''23'' ''59''" by (simp add: hhmm_pattern_def is_digit_def)
  have p4: "\<not> (\<exists>hh mm. hhmm_pattern ''abc'' hh mm)"
    using hhmm_pattern_no_colon[of "''abc''"] by simp
  have p5: "hhmm_pattern ''25:00'' ''25'' ''00''" by (simp add: hhmm_pattern_def is_digit_def)
  have p6: "hhmm_pattern ''12:60'' ''12'' ''60''" by (simp add: hhmm_pattern_def is_digit_def)
  show ?thesis
    using parseTime_spec[of "''03:30''" "''03''" "''30''"] p1
      parseTime_spec[of "''0:00''" "''0''" "''00''"] p2
      parseTime_spec[of "''23:59''" "''23''" "''59''"] p3
      parseTime_spec[of "''abc''"] p4
      parseTime_spec[of "''25:00''" "''25''" "''00''"] p5
      parseTime_spec[of "''12:60''" "''12''" "''60''"] p6
    by simp
qed

section \<open>Cron expressions\<close>

text \<open>
  C8.  For every time that \<open>parseTime\<close> accepts, with hour \<open>h\<close> and minute \<open>m\<close>,
  \<open>timeToCron\<close> is the template \<open>m h * * *\<close> for the daily frequency and
  \<open>m h * * 0\<close> for the weekly one, the two numbers printed in decimal; so
  \<open>03:30\<close> daily is \<open>30 3 * * *\<close> and \<open>03:00\<close> weekly is \<open>0 3 * * 0\<close>.  The result is a
  function of the two arguments alone.
\<close>

theorem timeToCron_spec:
  "(parseTime t = Inr (h, m) \<longrightarrow>
      timeToCron t (JStr ''daily'') = Inr (num_to_string m @ '' '' @ num_to_string h @ '' * * *'')
    \<and> timeToCron t (JStr ''weekly'') = Inr (num_to_string m @ '' '' @ num_to_string h @ '' * * 0''))
   \<and> timeToCron (JStr ''03:30'') (JStr ''daily'') = Inr ''30 3 * * *''
   \<and> timeToCron (JStr ''03:00'') (JStr ''weekly'') = Inr ''0 3 * * 0''"
proof -
  have "timeToCron (JStr ''03:30'') (JStr ''daily'') = Inr ''30 3 * * *''"
    by (simp add: timeToCron_def parseTime_def time_regex_exec_def is_digit_def parseInt10_def
        num_to_string_def nat_to_string.simps digit_char_def)
  moreover have "timeToCron (JStr ''03:00'') (JStr ''weekly'') = Inr ''0 3 * * 0''"
    by (simp add: timeToCron_def parseTime_def time_regex_exec_def is_digit_def parseInt10_def
        num_to_string_def nat_to_string.simps digit_char_def)
  ultimately show ?thesis by (simp add: timeToCron_def)
qed

theorem timeToCron_spec_witness:
  "parseTime (JStr ''12:05'') = Inr (12, 5)
   \<and> timeToCron (JStr ''12:05'') (JStr ''daily'') = Inr ''5 12 * * *''
   \<and> timeToCron (JStr ''12:05'') (JStr ''weekly'') = Inr ''5 12 * * 0''"
proof -
  have p: "parseTime (JStr ''12:05'') = Inr (12, 5)"
    by (simp add: parseTime_def time_regex_exec_def is_digit_def parseInt10_def)
  show ?thesis
    using p timeToCron_spec[of "JStr ''12:05''" 12 5]
    by (simp add: num_to_string_def nat_to_string.simps digit_char_def)
qed

section \<open>Building an outcome entry\<close>

lemma js_trim_Nil: "js_trim [] = []"
  by (simp add: js_trim_def)

lemma QUALITY_TYPES_nonempty: "q \<in> set QUALITY_TYPES \<Longrightarrow> q \<noteq> []"
  by (auto simp: QUALITY_TYPES_def)

lemma buildEntry_valid:
  assumes "in_task opts = JStr t" and "js_trim t \<noteq> []"
    and "in_quality opts = JStr q" and "q \<in> set QUALITY_TYPES"
  shows "buildEntry env opts =
    Inr \<lparr>timestamp = js_or (in_timestamp opts) (JStr (now_iso env)),
         task = JStr (js_trim t),
         channel = js_or (in_channel opts) JNull,
         outputQuality = JStr q,
         delta = js_or (in_delta opts) JNull,
         lesson = js_or (in_lesson opts) JNull,
         principleCandidate = js_or (in_principleCandidate opts) (JBool (q = ''correction''))\<rparr>"
proof -
  from assms(2) have "t \<noteq> []" using js_trim_Nil by auto
  moreover from assms(4) have "q \<noteq> []" by (rule QUALITY_TYPES_nonempty)
  ultimately show ?thesis using assms by (simp add: buildEntry_def)
qed

lemma buildEntry_bad_task:
  assumes "\<not> is_string (in_task opts) \<or> js_trim (string_of (in_task opts)) = []"
  shows "buildEntry env opts = Inl MissingTask"
  using assms by (auto simp: buildEntry_def)

lemma buildEntry_bad_quality:
  assumes "is_string (in_task opts)" and "js_trim (string_of (in_task opts)) \<noteq> []"
    and "\<not> QUALITY_TYPES_has (in_quality opts)"
  shows "buildEntry env opts = Inl (InvalidQuality (quality_message (in_quality opts)))"
proof -
  from assms(2) have "string_of (in_task opts) \<noteq> []" using js_trim_Nil by auto
  with assms(1) have "js_truthy (in_task opts)" by (cases "in_task opts") auto
  with assms show ?thesis by (simp add: buildEntry_def)
qed

lemma quality_message_text:
  "quality_message q =
     ''--quality must be one of: correction, edit, praise, silence, unknown (got: ''
       @ [CHR 0x22] @ js_to_string (js_or q (JStr '''')) @ [CHR 0x22] @ '')''"
  by (simp add: quality_message_def QUALITY_TYPES_def)

text \<open>
  C1, as stated, fails: a caller who passes \<^verbatim>\<open>principleCandidate: false\<close> together with
  the quality \<^verbatim>\<open>correction\<close> gets an entry whose \<open>principleCandidate\<close> is \<^verbatim>\<open>true\<close>, since
  the field is \<^verbatim>\<open>opts.principleCandidate || opts.quality === 'correction'\<close>.
\<close>

theorem buildEntry_explicit_false_counterexample:
  "buildEntry
     \<lparr>cwd = [''home''], prompts_dir = [''skill'', ''prompts''], intl_timezone = None,
      now_iso = ''2026-01-15T10:00:00.000Z''\<rparr>
     \<lparr>in_task = JStr ''Date check'', in_quality = JStr ''correction'',
      in_timestamp = JUndefined, in_channel = JUndefined, in_delta = JUndefined,
      in_lesson = JUndefined, in_principleCandidate = JBool False, in_root = None\<rparr>
   = Inr \<lparr>timestamp = JStr ''2026-01-15T10:00:00.000Z'', task = JStr ''Date check'',
          channel = JNull, outputQuality = JStr ''correction'', delta = JNull, lesson = JNull,
          principleCandidate = JBool True\<rparr>"
  by (simp add: buildEntry_def js_or_def js_trim_def is_js_space_def QUALITY_TYPES_def)

text \<open>
  C1, amended.  For every input with a task that is a string, non-empty after
  trimming, and a quality in the fixed five-value set, \<open>buildEntry\<close> returns an entry
  whose \<open>principleCandidate\<close> is the caller's value when that value is truthy (an
  explicit \<^verbatim>\<open>true\<close> in particular); when the caller's value is absent or \<^verbatim>\<open>false\<close> (or
  any other falsy value), it is \<^verbatim>\<open>true\<close> if and only if the quality is \<^verbatim>\<open>correction\<close>.
\<close>

theorem buildEntry_principleCandidate:
  assumes "in_task opts = JStr t" and "js_trim t \<noteq> []"
    and "in_quality opts = JStr q" and "q \<in> set QUALITY_TYPES"
  shows "\<exists>e. buildEntry env opts = Inr e
    \<and> (js_truthy (in_principleCandidate opts) \<longrightarrow>
          principleCandidate e = in_principleCandidate opts)
    \<and> (in_principleCandidate opts = JBool True \<longrightarrow> principleCandidate e = JBool True)
    \<and> (\<not> js_truthy (in_principleCandidate opts) \<longrightarrow>
          principleCandidate e = JBool (q = ''correction''))
    \<and> (in_principleCandidate opts = JUndefined \<or> in_principleCandidate opts = JBool False \<longrightarrow>
          principleCandidate e = JBool (q = ''correction''))"
  using buildEntry_valid[OF assms] by (auto simp: js_or_def)

theorem buildEntry_principleCandidate_witness:
  "js_trim ''Draft email'' \<noteq> [] \<and> ''edit'' \<in> set QUALITY_TYPES
   \<and> (\<exists>e. buildEntry
         \<lparr>cwd = [''home''], prompts_dir = [''skill'', ''prompts''], intl_timezone = None,
          now_iso = ''2026-01-15T10:00:00.000Z''\<rparr>
         \<lparr>in_task = JStr ''Draft email'', in_quality = JStr ''edit'',
          in_timestamp = JUndefined, in_channel = JUndefined, in_delta = JUndefined,
          in_lesson = JUndefined, in_principleCandidate = JBool True, in_root = None\<rparr> = Inr e
        \<and> principleCandidate e = JBool True)"
proof -
  have a: "js_trim ''Draft email'' \<noteq> []" by (simp add: js_trim_def is_js_space_def)
  have b: "''edit'' \<in> set QUALITY_TYPES" by (simp add: QUALITY_TYPES_def)
  show ?thesis
    using a b buildEntry_principleCandidate[OF _ a _ b,
        of "\<lparr>in_task = JStr ''Draft email'', in_quality = JStr ''edit'',
          in_timestamp = JUndefined, in_channel = JUndefined, in_delta = JUndefined,
          in_lesson = JUndefined, in_principleCandidate = JBool True, in_root = None\<rparr>"
          "\<lparr>cwd = [''home''], prompts_dir = [''skill'', ''prompts''], intl_timezone = None,
          now_iso = ''2026-01-15T10:00:00.000Z''\<rparr>"]
    by auto
qed

text \<open>
  C10.  For every input with a valid task and quality, a channel, delta or lesson
  given as the empty string is built as \<^verbatim>\<open>null\<close>, and the whole result is the one built
  when the field is missing; a timestamp given as the empty string is replaced by the
  current instant, again as when it is missing.
\<close>

theorem buildEntry_empty_string_fields:
  assumes "in_task opts = JStr t" and "js_trim t \<noteq> []"
    and "in_quality opts = JStr q" and "q \<in> set QUALITY_TYPES"
  shows "(\<exists>e. buildEntry env (opts\<lparr>in_channel := JStr ''''\<rparr>) = Inr e \<and> channel e = JNull)
    \<and> buildEntry env (opts\<lparr>in_channel := JStr ''''\<rparr>)
        = buildEntry env (opts\<lparr>in_channel := JUndefined\<rparr>)
    \<and> (\<exists>e. buildEntry env (opts\<lparr>in_delta := JStr ''''\<rparr>) = Inr e \<and> delta e = JNull)
    \<and> buildEntry env (opts\<lparr>in_delta := JStr ''''\<rparr>)
        = buildEntry env (opts\<lparr>in_delta := JUndefined\<rparr>)
    \<and> (\<exists>e. buildEntry env (opts\<lparr>in_lesson := JStr ''''\<rparr>) = Inr e \<and> lesson e = JNull)
    \<and> buildEntry env (opts\<lparr>in_lesson := JStr ''''\<rparr>)
        = buildEntry env (opts\<lparr>in_lesson := JUndefined\<rparr>)
    \<and> (\<exists>e. buildEntry env (opts\<lparr>in_timestamp := JStr ''''\<rparr>) = Inr e
          \<and> timestamp e = JStr (now_iso env))
    \<and> buildEntry env (opts\<lparr>in_timestamp := JStr ''''\<rparr>)
        = buildEntry env (opts\<lparr>in_timestamp := JUndefined\<rparr>)"
proof -
  have c: "buildEntry env (opts\<lparr>in_channel := v\<rparr>) =
      Inr \<lparr>timestamp = js_or (in_timestamp opts) (JStr (now_iso env)), task = JStr (js_trim t),
         channel = js_or v JNull, outputQuality = JStr q,
         delta = js_or (in_delta opts) JNull, lesson = js_or (in_lesson opts) JNull,
         principleCandidate =
           js_or (in_principleCandidate opts) (JBool (q = ''correction''))\<rparr>" for v
    using buildEntry_valid[of "opts\<lparr>in_channel := v\<rparr>" t q env] assms by simp
  have d: "buildEntry env (opts\<lparr>in_delta := v\<rparr>) =
      Inr \<lparr>timestamp = js_or (in_timestamp opts) (JStr (now_iso env)), task = JStr (js_trim t),
         channel = js_or (in_channel opts) JNull, outputQuality = JStr q,
         delta = js_or v JNull, lesson = js_or (in_lesson opts) JNull,
         principleCandidate =
           js_or (in_principleCandidate opts) (JBool (q = ''correction''))\<rparr>" for v
    using buildEntry_valid[of "opts\<lparr>in_delta := v\<rparr>" t q env] assms by simp
  have l: "buildEntry env (opts\<lparr>in_lesson := v\<rparr>) =
      Inr \<lparr>timestamp = js_or (in_timestamp opts) (JStr (now_iso env)), task = JStr (js_trim t),
         channel = js_or (in_channel opts) JNull, outputQuality = JStr q,
         delta = js_or (in_delta opts) JNull, lesson = js_or v JNull,
         principleCandidate =
           js_or (in_principleCandidate opts) (JBool (q = ''correction''))\<rparr>" for v
    using buildEntry_valid[of "opts\<lparr>in_lesson := v\<rparr>" t q env] assms by simp
  have s: "buildEntry env (opts\<lparr>in_timestamp := v\<rparr>) =
      Inr \<lparr>timestamp = js_or v (JStr (now_iso env)), task = JStr (js_trim t),
         channel = js_or (in_channel opts) JNull, outputQuality = JStr q,
         delta = js_or (in_delta opts) JNull, lesson = js_or (in_lesson opts) JNull,
         principleCandidate =
           js_or (in_principleCandidate opts) (JBool (q = ''correction''))\<rparr>" for v
    using buildEntry_valid[of "opts\<lparr>in_timestamp := v\<rparr>" t q env] assms by simp
  show ?thesis
    by (simp add: c d l s js_or_def)
qed

theorem buildEntry_empty_string_fields_witness:
  "js_trim ''API research'' \<noteq> [] \<and> ''praise'' \<in> set QUALITY_TYPES
   \<and> buildEntry
       \<lparr>cwd = [''home''], prompts_dir = [''skill'', ''prompts''], intl_timezone = None,
        now_iso = ''2026-01-15T10:00:00.000Z''\<rparr>
       \<lparr>in_task = JStr ''API research'', in_quality = JStr ''praise'',
        in_timestamp = JStr '''', in_channel = JStr '''', in_delta = JStr '''',
        in_lesson = JStr '''', in_principleCandidate = JUndefined, in_root = None\<rparr>
     = Inr \<lparr>timestamp = JStr ''2026-01-15T10:00:00.000Z'', task = JStr ''API research'',
            channel = JNull, outputQuality = JStr ''praise'', delta = JNull, lesson = JNull,
            principleCandidate = JBool False\<rparr>"
proof -
  have a: "js_trim ''API research'' \<noteq> []" by (simp add: js_trim_def is_js_space_def)
  have b: "''praise'' \<in> set QUALITY_TYPES" by (simp add: QUALITY_TYPES_def)
  have c: "js_trim ''API research'' = ''API research''" by (simp add: js_trim_def is_js_space_def)
  show ?thesis
    using a b buildEntry_empty_string_fields[OF _ a _ b,
        of "\<lparr>in_task = JStr ''API research'', in_quality = JStr ''praise'',
          in_timestamp = JStr '''', in_channel = JStr '''', in_delta = JStr '''',
          in_lesson = JStr '''', in_principleCandidate = JUndefined, in_root = None\<rparr>"
          "\<lparr>cwd = [''home''], prompts_dir = [''skill'', ''prompts''], intl_timezone = None,
          now_iso = ''2026-01-15T10:00:00.000Z''\<rparr>"]
    by (simp add: buildEntry_def js_or_def c QUALITY_TYPES_def)
qed

section \<open>Rejected calls leave the log alone\<close>

text \<open>
  C5.  For every input whose task is missing, not a string, empty or made of white
  space only, \<open>log\<close> fails with \<open>MissingTask\<close>; for every input with a valid task
  whose quality is not one of the five fixed values, \<open>log\<close> fails with
  \<open>InvalidQuality\<close>.  In both cases the file system, the outcome log with it, is
  exactly as before: nothing has been appended.  The message of \<open>InvalidQuality\<close>
  lists the five valid values and then quotes the value received, as a template
  literal prints \<^verbatim>\<open>opts.quality || ''\<close>: the string itself when the quality is a
  string, nothing when it is absent or otherwise falsy.
\<close>

theorem log_rejects_invalid_input:
  "(\<not> is_string (in_task opts) \<or> js_trim (string_of (in_task opts)) = []
      \<longrightarrow> log env opts fs = (Inl MissingTask, fs))
   \<and> (is_string (in_task opts) \<and> js_trim (string_of (in_task opts)) \<noteq> []
        \<and> \<not> QUALITY_TYPES_has (in_quality opts)
      \<longrightarrow> log env opts fs = (Inl (InvalidQuality (quality_message (in_quality opts))), fs))
   \<and> quality_message (JStr s) =
        ''--quality must be one of: correction, edit, praise, silence, unknown (got: ''
          @ [CHR 0x22] @ s @ [CHR 0x22] @ '')''
   \<and> quality_message JUndefined =
        ''--quality must be one of: correction, edit, praise, silence, unknown (got: ''
          @ [CHR 0x22] @ [CHR 0x22] @ '')''
   \<and> quality_message q =
        ''--quality must be one of: correction, edit, praise, silence, unknown (got: ''
          @ [CHR 0x22] @ js_to_string (js_or q (JStr [])) @ [CHR 0x22] @ '')''"
  using buildEntry_bad_task[of opts env] buildEntry_bad_quality[of opts env]
    quality_message_text[of q]
  by (auto simp: log_def quality_message_text js_or_def)

theorem log_rejects_invalid_input_witness:
  "log \<lparr>cwd = [''home''], prompts_dir = [''skill'', ''prompts''], intl_timezone = None,
        now_iso = ''2026-01-15T10:00:00.000Z''\<rparr>
       \<lparr>in_task = JUndefined, in_quality = JStr ''praise'',
        in_timestamp = JUndefined, in_channel = JUndefined, in_delta = JUndefined,
        in_lesson = JUndefined, in_principleCandidate = JUndefined, in_root = Some [''w'']\<rparr>
       (Map.empty([] \<mapsto> Dir, [''w''] \<mapsto> Dir))
     = (Inl MissingTask, Map.empty([] \<mapsto> Dir, [''w''] \<mapsto> Dir))
   \<and> log \<lparr>cwd = [''home''], prompts_dir = [''skill'', ''prompts''], intl_timezone = None,
        now_iso = ''2026-01-15T10:00:00.000Z''\<rparr>
       \<lparr>in_task = JStr ''  '', in_quality = JStr ''praise'',
        in_timestamp = JUndefined, in_channel = JUndefined, in_delta = JUndefined,
        in_lesson = JUndefined, in_principleCandidate = JUndefined, in_root = Some [''w'']\<rparr>
       (Map.empty([] \<mapsto> Dir, [''w''] \<mapsto> Dir))
     = (Inl MissingTask, Map.empty([] \<mapsto> Dir, [''w''] \<mapsto> Dir))
   \<and> log \<lparr>cwd = [''home''], prompts_dir = [''skill'', ''prompts''], intl_timezone = None,
        now_iso = ''2026-01-15T10:00:00.000Z''\<rparr>
       \<lparr>in_task = JStr ''test'', in_quality = JStr ''great'',
        in_timestamp = JUndefined, in_channel = JUndefined, in_delta = JUndefined,
        in_lesson = JUndefined, in_principleCandidate = JUndefined, in_root = Some [''w'']\<rparr>
       (Map.empty([] \<mapsto> Dir, [''w''] \<mapsto> Dir))
     = (Inl (InvalidQuality
          (''--quality must be one of: correction, edit, praise, silence, unknown (got: ''
             @ [CHR 0x22] @ ''great'' @ [CHR 0x22] @ '')'')),
        Map.empty([] \<mapsto> Dir, [''w''] \<mapsto> Dir))"
proof -
  have t: "js_trim ''  '' = []" "js_trim ''test'' \<noteq> []"
    by (simp_all add: js_trim_def is_js_space_def)
  have q: "\<not> QUALITY_TYPES_has (JStr ''great'')" by (simp add: QUALITY_TYPES_def)
  show ?thesis
    using t q
      log_rejects_invalid_input[of
        "\<lparr>in_task = JUndefined, in_quality = JStr ''praise'',
          in_timestamp = JUndefined, in_channel = JUndefined, in_delta = JUndefined,
          in_lesson = JUndefined, in_principleCandidate = JUndefined, in_root = Some [''w'']\<rparr>"
        "\<lparr>cwd = [''home''], prompts_dir = [''skill'', ''prompts''], intl_timezone = None,
          now_iso = ''2026-01-15T10:00:00.000Z''\<rparr>"
        "Map.empty([] \<mapsto> Dir, [''w''] \<mapsto> Dir)" "''great''"]
      log_rejects_invalid_input[of
        "\<lparr>in_task = JStr ''  '', in_quality = JStr ''praise'',
          in_timestamp = JUndefined, in_channel = JUndefined, in_delta = JUndefined,
          in_lesson = JUndefined, in_principleCandidate = JUndefined, in_root = Some [''w'']\<rparr>"
        "\<lparr>cwd = [''home''], prompts_dir = [''skill'', ''prompts''], intl_timezone = None,
          now_iso = ''2026-01-15T10:00:00.000Z''\<rparr>"
        "Map.empty([] \<mapsto> Dir, [''w''] \<mapsto> Dir)" "''great''"]
      log_rejects_invalid_input[of
        "\<lparr>in_task = JStr ''test'', in_quality = JStr ''great'',
          in_timestamp = JUndefined, in_channel = JUndefined, in_delta = JUndefined,
          in_lesson = JUndefined, in_principleCandidate = JUndefined, in_root = Some [''w'']\<rparr>"
        "\<lparr>cwd = [''home''], prompts_dir = [''skill'', ''prompts''], intl_timezone = None,
          now_iso = ''2026-01-15T10:00:00.000Z''\<rparr>"
        "Map.empty([] \<mapsto> Dir, [''w''] \<mapsto> Dir)" "''great''"]
    by simp
qed

section \<open>File-system calls\<close>

lemma mkdir_from_frame:
  "mkdir_from pre cs fs = (res, fs') \<Longrightarrow> \<not> prefix q (pre @ cs) \<Longrightarrow> fs' q = fs q"
proof (induction cs arbitrary: pre fs)
  case Nil
  then show ?case by simp
next
  case (Cons c cs)
  have ne: "q \<noteq> pre @ [c]"
  proof
    assume "q = pre @ [c]"
    then have "prefix q (pre @ c # cs)" by (simp add: prefix_def)
    with Cons.prems(2) show False by simp
  qed
  have np: "\<not> prefix q ((pre @ [c]) @ cs)" using Cons.prems(2) by simp
  show ?case
  proof (cases "fs (pre @ [c])")
    case None
    with Cons.prems(1) have "mkdir_from (pre @ [c]) cs (fs(pre @ [c] \<mapsto> Dir)) = (res, fs')"
      by simp
    from Cons.IH[OF this np] ne show ?thesis by simp
  next
    case (Some n)
    show ?thesis
    proof (cases n)
      case Dir
      with Some Cons.prems(1) have "mkdir_from (pre @ [c]) cs fs = (res, fs')" by simp
      from Cons.IH[OF this np] show ?thesis .
    next
      case (File x)
      with Some Cons.prems(1) show ?thesis by simp
    qed
  qed
qed

lemma mkdir_from_mono:
  "mkdir_from pre cs fs = (res, fs') \<Longrightarrow> fs q = Some n \<Longrightarrow> fs' q = Some n"
proof (induction cs arbitrary: pre fs)
  case Nil
  then show ?case by simp
next
  case (Cons c cs)
  show ?case
  proof (cases "fs (pre @ [c])")
    case None
    with Cons.prems(1) have m: "mkdir_from (pre @ [c]) cs (fs(pre @ [c] \<mapsto> Dir)) = (res, fs')"
      by simp
    from None Cons.prems(2) have "q \<noteq> pre @ [c]" by auto
    with Cons.prems(2) have "(fs(pre @ [c] \<mapsto> Dir)) q = Some n" by simp
    from Cons.IH[OF m this] show ?thesis .
  next
    case (Some k)
    show ?thesis
    proof (cases k)
      case Dir
      with Some Cons.prems(1) have "mkdir_from (pre @ [c]) cs fs = (res, fs')" by simp
      from Cons.IH[OF this Cons.prems(2)] show ?thesis .
    next
      case (File x)
      with Some Cons.prems show ?thesis by simp
    qed
  qed
qed

text \<open>A recursive mkdir adds directories only.\<close>

lemma mkdir_from_new:
  "mkdir_from pre cs fs = (res, fs') \<Longrightarrow> fs' q = Some n \<Longrightarrow> fs q = Some n \<or> (fs q = None \<and> n = Dir)"
proof (induction cs arbitrary: pre fs)
  case Nil
  then show ?case by simp
next
  case (Cons c cs)
  show ?case
  proof (cases "fs (pre @ [c])")
    case None
    with Cons.prems(1) have m: "mkdir_from (pre @ [c]) cs (fs(pre @ [c] \<mapsto> Dir)) = (res, fs')"
      by simp
    from Cons.IH[OF m Cons.prems(2)] None show ?thesis by (auto split: if_splits)
  next
    case (Some k)
    show ?thesis
    proof (cases k)
      case Dir
      with Some Cons.prems(1) have "mkdir_from (pre @ [c]) cs fs = (res, fs')" by simp
      from Cons.IH[OF this Cons.prems(2)] show ?thesis .
    next
      case (File x)
      with Some Cons.prems show ?thesis by simp
    qed
  qed
qed

lemma mkdir_from_success:
  "mkdir_from pre cs fs = (Inr u, fs') \<Longrightarrow> cs \<noteq> [] \<Longrightarrow> fs' (pre @ cs) = Some Dir"
proof (induction cs arbitrary: pre fs)
  case Nil
  then show ?case by simp
next
  case (Cons c cs)
  show ?case
  proof (cases "fs (pre @ [c])")
    case None
    with Cons.prems(1) have m: "mkdir_from (pre @ [c]) cs (fs(pre @ [c] \<mapsto> Dir)) = (Inr u, fs')"
      by simp
    show ?thesis
    proof (cases "cs = []")
      case True
      with m show ?thesis by auto
    next
      case False
      from Cons.IH[OF m False] show ?thesis by simp
    qed
  next
    case (Some k)
    show ?thesis
    proof (cases k)
      case Dir
      with Some Cons.prems(1) have m: "mkdir_from (pre @ [c]) cs fs = (Inr u, fs')" by simp
      show ?thesis
      proof (cases "cs = []")
        case True
        with m Some Dir show ?thesis by simp
      next
        case False
        from Cons.IH[OF m False] show ?thesis by simp
      qed
    next
      case (File x)
      with Some Cons.prems show ?thesis by simp
    qed
  qed
qed

lemma mkdirSync_recursive_frame:
  "mkdirSync_recursive p fs = (res, fs') \<Longrightarrow> \<not> prefix q p \<Longrightarrow> fs' q = fs q"
  using mkdir_from_frame[of "[]" p fs res fs' q] by (simp add: mkdirSync_recursive_def)

lemma mkdirSync_recursive_mono:
  "mkdirSync_recursive p fs = (res, fs') \<Longrightarrow> fs q = Some n \<Longrightarrow> fs' q = Some n"
  using mkdir_from_mono[of "[]" p fs res fs' q n] by (simp add: mkdirSync_recursive_def)

lemma mkdirSync_recursive_new:
  "mkdirSync_recursive p fs = (res, fs') \<Longrightarrow> fs' q = Some n
    \<Longrightarrow> fs q = Some n \<or> (fs q = None \<and> n = Dir)"
  using mkdir_from_new[of "[]" p fs res fs' q n] by (simp add: mkdirSync_recursive_def)

lemma mkdirSync_recursive_success:
  "mkdirSync_recursive p fs = (Inr u, fs') \<Longrightarrow> p \<noteq> [] \<Longrightarrow> fs' p = Some Dir"
  using mkdir_from_success[of "[]" p fs u fs'] by (simp add: mkdirSync_recursive_def)

lemma writeFileSync_cases:
  assumes "writeFileSync p content fs = (res, fs')"
  shows "(fs' = fs \<and> (\<exists>e. res = Inl e)) \<or> (fs' = fs(p \<mapsto> File content) \<and> res = Inr ())"
  using assms by (auto simp: writeFileSync_def split: option.splits node.splits)

section \<open>The two loops\<close>

lemma init_dirs_mono:
  "init_dirs dry r rels rep fs = (res, fs') \<Longrightarrow> fs q = Some n \<Longrightarrow> fs' q = Some n"
proof (induction rels arbitrary: rep fs)
  case Nil
  then show ?case by simp
next
  case (Cons rel rels)
  show ?case
  proof (cases "existsSync fs (path_join r rel) \<or> js_truthy dry")
    case True
    with Cons.prems(1) obtain rep1 where "init_dirs dry r rels rep1 fs = (res, fs')"
      by (auto simp: Let_def split: if_splits)
    from Cons.IH[OF this Cons.prems(2)] show ?thesis .
  next
    case False
    obtain r1 fs1 where m: "mkdirSync_recursive (path_join r rel) fs = (r1, fs1)"
      by (cases "mkdirSync_recursive (path_join r rel) fs")
    from m Cons.prems(2) have k: "fs1 q = Some n"
      by (rule mkdirSync_recursive_mono)
    show ?thesis
    proof (cases r1)
      case (Inl e)
      with False m Cons.prems(1) have "fs' = fs1" by (simp add: Let_def)
      with k show ?thesis by simp
    next
      case (Inr u)
      with False m Cons.prems(1) obtain rep1 where "init_dirs dry r rels rep1 fs1 = (res, fs')"
        by (auto simp: Let_def)
      from Cons.IH[OF this k] show ?thesis .
    qed
  qed
qed

lemma init_dirs_new:
  "init_dirs dry r rels rep fs = (res, fs') \<Longrightarrow> fs' q = Some n
    \<Longrightarrow> fs q = Some n \<or> (fs q = None \<and> n = Dir)"
proof (induction rels arbitrary: rep fs)
  case Nil
  then show ?case by simp
next
  case (Cons rel rels)
  show ?case
  proof (cases "existsSync fs (path_join r rel) \<or> js_truthy dry")
    case True
    with Cons.prems(1) obtain rep1 where "init_dirs dry r rels rep1 fs = (res, fs')"
      by (auto simp: Let_def split: if_splits)
    from Cons.IH[OF this Cons.prems(2)] show ?thesis .
  next
    case False
    obtain r1 fs1 where m: "mkdirSync_recursive (path_join r rel) fs = (r1, fs1)"
      by (cases "mkdirSync_recursive (path_join r rel) fs")
    have k: "fs1 q = Some n \<Longrightarrow> fs q = Some n \<or> (fs q = None \<and> n = Dir)"
      using m by (rule mkdirSync_recursive_new)
    show ?thesis
    proof (cases r1)
      case (Inl e)
      with False m Cons.prems(1) have "fs' = fs1" by (simp add: Let_def)
      with k Cons.prems(2) show ?thesis by simp
    next
      case (Inr u)
      with False m Cons.prems(1) obtain rep1 where "init_dirs dry r rels rep1 fs1 = (res, fs')"
        by (auto simp: Let_def)
      from Cons.IH[OF this Cons.prems(2)] have "fs1 q = Some n \<or> (fs1 q = None \<and> n = Dir)" .
      then show ?thesis
      proof
        assume "fs1 q = Some n"
        then show ?thesis by (rule k)
      next
        assume a: "fs1 q = None \<and> n = Dir"
        have "fs q = None"
        proof (cases "fs q")
          case None
          then show ?thesis .
        next
          case (Some x)
          with m have "fs1 q = Some x" by (rule mkdirSync_recursive_mono)
          with a show ?thesis by simp
        qed
        with a show ?thesis by simp
      qed
    qed
  qed
qed

lemma init_dirs_frame:
  "init_dirs dry r rels rep fs = (res, fs') \<Longrightarrow> list_all (\<lambda>rel. \<not> prefix q (path_join r rel)) rels
    \<Longrightarrow> fs' q = fs q"
proof (induction rels arbitrary: rep fs)
  case Nil
  then show ?case by simp
next
  case (Cons rel rels)
  from Cons.prems(2) have np: "\<not> prefix q (path_join r rel)"
    and rest: "list_all (\<lambda>rel. \<not> prefix q (path_join r rel)) rels" by simp_all
  show ?case
  proof (cases "existsSync fs (path_join r rel) \<or> js_truthy dry")
    case True
    with Cons.prems(1) obtain rep1 where "init_dirs dry r rels rep1 fs = (res, fs')"
      by (auto simp: Let_def split: if_splits)
    from Cons.IH[OF this rest] show ?thesis .
  next
    case False
    obtain r1 fs1 where m: "mkdirSync_recursive (path_join r rel) fs = (r1, fs1)"
      by (cases "mkdirSync_recursive (path_join r rel) fs")
    have k: "fs1 q = fs q"
      using m np by (rule mkdirSync_recursive_frame)
    show ?thesis
    proof (cases r1)
      case (Inl e)
      with False m Cons.prems(1) have "fs' = fs1" by (simp add: Let_def)
      with k show ?thesis by simp
    next
      case (Inr u)
      with False m Cons.prems(1) obtain rep1 where "init_dirs dry r rels rep1 fs1 = (res, fs')"
        by (auto simp: Let_def)
      from Cons.IH[OF this rest] k show ?thesis by simp
    qed
  qed
qed

lemma init_dirs_dry:
  "js_truthy dry \<Longrightarrow> init_dirs dry r rels rep fs =
     (Inr (rep\<lparr>created := created rep @ map dir_label (filter (\<lambda>rel. \<not> present fs r rel) rels),
               existed := existed rep @ map dir_label (filter (present fs r) rels)\<rparr>), fs)"
  by (induction rels arbitrary: rep) (simp_all add: present_def dir_label_def Let_def)

lemma filter_present_cong:
  assumes "list_all (\<lambda>rel. fs1 (path_join r rel) = fs (path_join r rel)) rels"
  shows "filter (present fs1 r) rels = filter (present fs r) rels"
    and "filter (\<lambda>rel. \<not> present fs1 r rel) rels = filter (\<lambda>rel. \<not> present fs r rel) rels"
  using assms by (induction rels) (auto simp: present_def existsSync_def)

lemma init_dirs_report:
  "init_dirs dry r rels rep fs = (Inr rep', fs') \<Longrightarrow> parents_first (map (path_join r) rels) \<Longrightarrow>
     rep' = rep\<lparr>created := created rep @ map dir_label (filter (\<lambda>rel. \<not> present fs r rel) rels),
               existed := existed rep @ map dir_label (filter (present fs r) rels)\<rparr>"
proof (induction rels arbitrary: rep fs)
  case Nil
  then show ?case by simp
next
  case (Cons rel rels)
  from Cons.prems(2) have later: "list_all (\<lambda>q. \<not> prefix q (path_join r rel)) (map (path_join r) rels)"
    and pf: "parents_first (map (path_join r) rels)" by simp_all
  show ?case
  proof (cases "existsSync fs (path_join r rel)")
    case True
    then have p: "present fs r rel" by (simp add: present_def)
    from True Cons.prems(1)
    have "init_dirs dry r rels (rep\<lparr>existed := existed rep @ [rel @ ''/'']\<rparr>) fs = (Inr rep', fs')"
      by (simp add: Let_def)
    from Cons.IH[OF this pf] p show ?thesis by (simp add: dir_label_def)
  next
    case False
    then have p: "\<not> present fs r rel" by (simp add: present_def)
    show ?thesis
    proof (cases "js_truthy dry")
      case True
      with False Cons.prems(1)
      have "init_dirs dry r rels (rep\<lparr>created := created rep @ [rel @ ''/'']\<rparr>) fs = (Inr rep', fs')"
        by (simp add: Let_def)
      from Cons.IH[OF this pf] p show ?thesis by (simp add: dir_label_def)
    next
      case nd: False
      obtain r1 fs1 where m: "mkdirSync_recursive (path_join r rel) fs = (r1, fs1)"
        by (cases "mkdirSync_recursive (path_join r rel) fs")
      with False nd Cons.prems(1) obtain u where r1: "r1 = Inr u"
        by (cases r1) (auto simp: Let_def)
      with m False nd Cons.prems(1)
      have run: "init_dirs dry r rels (rep\<lparr>created := created rep @ [rel @ ''/'']\<rparr>) fs1 = (Inr rep', fs')"
        by (simp add: Let_def)
      have same: "list_all (\<lambda>rel'. fs1 (path_join r rel') = fs (path_join r rel')) rels"
        using later mkdirSync_recursive_frame[OF m]
        by (auto simp: list_all_iff)
      from Cons.IH[OF run pf] have "rep' = rep\<lparr>created := created rep @ [rel @ ''/'']\<rparr>
          \<lparr>created := created (rep\<lparr>created := created rep @ [rel @ ''/'']\<rparr>)
              @ map dir_label (filter (\<lambda>rel. \<not> present fs1 r rel) rels),
           existed := existed (rep\<lparr>created := created rep @ [rel @ ''/'']\<rparr>)
              @ map dir_label (filter (present fs1 r) rels)\<rparr>" .
      then show ?thesis
        unfolding filter_present_cong[OF same] using p by (simp add: dir_label_def)
    qed
  qed
qed

lemma init_dirs_present_after:
  "init_dirs dry r rels rep fs = (Inr rep', fs') \<Longrightarrow> \<not> js_truthy dry
    \<Longrightarrow> list_all (\<lambda>rel. path_join r rel \<noteq> []) rels \<Longrightarrow> list_all (present fs' r) rels"
proof (induction rels arbitrary: rep fs)
  case Nil
  then show ?case by simp
next
  case (Cons rel rels)
  from Cons.prems(3) have ne: "path_join r rel \<noteq> []"
    and rest: "list_all (\<lambda>rel. path_join r rel \<noteq> []) rels" by simp_all
  show ?case
  proof (cases "existsSync fs (path_join r rel)")
    case True
    with Cons.prems(1)
    have run: "init_dirs dry r rels (rep\<lparr>existed := existed rep @ [rel @ ''/'']\<rparr>) fs = (Inr rep', fs')"
      by (simp add: Let_def)
    from True obtain n where "fs (path_join r rel) = Some n" by (auto simp: existsSync_def)
    with run have "fs' (path_join r rel) = Some n" by (rule init_dirs_mono)
    with Cons.IH[OF run Cons.prems(2) rest] show ?thesis by (simp add: present_def existsSync_def)
  next
    case False
    obtain r1 fs1 where m: "mkdirSync_recursive (path_join r rel) fs = (r1, fs1)"
      by (cases "mkdirSync_recursive (path_join r rel) fs")
    with False Cons.prems(1,2) obtain u where r1: "r1 = Inr u"
      by (cases r1) (auto simp: Let_def)
    with m False Cons.prems(1,2)
    have run: "init_dirs dry r rels (rep\<lparr>created := created rep @ [rel @ ''/'']\<rparr>) fs1 = (Inr rep', fs')"
      by (simp add: Let_def)
    from m r1 ne have "fs1 (path_join r rel) = Some Dir"
      by (auto dest: mkdirSync_recursive_success)
    with run have "fs' (path_join r rel) = Some Dir" by (rule init_dirs_mono)
    with Cons.IH[OF run Cons.prems(2) rest] show ?thesis by (simp add: present_def existsSync_def)
  qed
qed

lemma init_dirs_all_present:
  "list_all (present fs r) rels \<Longrightarrow>
     init_dirs dry r rels rep fs = (Inr (rep\<lparr>existed := existed rep @ map dir_label rels\<rparr>), fs)"
  by (induction rels arbitrary: rep) (simp_all add: present_def dir_label_def Let_def)

lemma init_dirs_dry_fs:
  "js_truthy dry \<Longrightarrow> init_dirs dry r rels rep fs = (res, fs') \<Longrightarrow> fs' = fs"
  by (simp add: init_dirs_dry)

lemma init_files_step:
  assumes "init_files dry r ((rel, content) # rest) rep fs = (res, fs')"
  shows "(existsSync fs (path_join r rel)
            \<and> init_files dry r rest (rep\<lparr>existed := existed rep @ [rel]\<rparr>) fs = (res, fs'))
       \<or> (\<not> existsSync fs (path_join r rel) \<and> js_truthy dry
            \<and> init_files dry r rest (rep\<lparr>created := created rep @ [rel]\<rparr>) fs = (res, fs'))
       \<or> (\<not> existsSync fs (path_join r rel) \<and> \<not> js_truthy dry
            \<and> (\<exists>e. res = Inl e) \<and> fs' = fs)
       \<or> (\<not> existsSync fs (path_join r rel) \<and> \<not> js_truthy dry
            \<and> init_files dry r rest (rep\<lparr>created := created rep @ [rel]\<rparr>)
                  (fs(path_join r rel \<mapsto> File content)) = (res, fs'))"
proof (cases "existsSync fs (path_join r rel) \<or> js_truthy dry")
  case True
  with assms show ?thesis by (auto simp: Let_def split: if_splits)
next
  case False
  obtain r1 fs1 where w: "writeFileSync (path_join r rel) content fs = (r1, fs1)"
    by (cases "writeFileSync (path_join r rel) content fs")
  from writeFileSync_cases[OF w] show ?thesis
  proof
    assume "fs1 = fs \<and> (\<exists>e. r1 = Inl e)"
    with False w assms show ?thesis by (auto simp: Let_def)
  next
    assume "fs1 = fs(path_join r rel \<mapsto> File content) \<and> r1 = Inr ()"
    with False w assms show ?thesis by (auto simp: Let_def)
  qed
qed

lemma init_files_mono:
  "init_files dry r fl rep fs = (res, fs') \<Longrightarrow> fs q = Some n \<Longrightarrow> fs' q = Some n"
proof (induction fl arbitrary: rep fs)
  case Nil
  then show ?case by simp
next
  case (Cons a fl)
  obtain rel content where a: "a = (rel, content)" by (cases a)
  from init_files_step[OF Cons.prems(1)[unfolded a]] show ?case
  proof (elim disjE conjE exE)
    assume "init_files dry r fl (rep\<lparr>existed := existed rep @ [rel]\<rparr>) fs = (res, fs')"
    from Cons.IH[OF this Cons.prems(2)] show ?thesis .
  next
    assume "init_files dry r fl (rep\<lparr>created := created rep @ [rel]\<rparr>) fs = (res, fs')"
    from Cons.IH[OF this Cons.prems(2)] show ?thesis .
  next
    assume "fs' = fs"
    with Cons.prems(2) show ?thesis by simp
  next
    assume ne: "\<not> existsSync fs (path_join r rel)"
      and run: "init_files dry r fl (rep\<lparr>created := created rep @ [rel]\<rparr>)
                  (fs(path_join r rel \<mapsto> File content)) = (res, fs')"
    from ne Cons.prems(2) have "q \<noteq> path_join r rel" by (auto simp: existsSync_def)
    with Cons.prems(2) have "(fs(path_join r rel \<mapsto> File content)) q = Some n" by simp
    from Cons.IH[OF run this] show ?thesis .
  qed
qed

text \<open>The second loop adds regular files only, and only at the paths of its list.\<close>

lemma init_files_new:
  "init_files dry r fl rep fs = (res, fs') \<Longrightarrow> fs' q = Some n \<Longrightarrow>
     fs q = Some n \<or> (fs q = None \<and> q \<in> path_join r ` fst ` set fl \<and> (\<exists>c. n = File c))"
proof (induction fl arbitrary: rep fs)
  case Nil
  then show ?case by simp
next
  case (Cons a fl)
  obtain rel content where a: "a = (rel, content)" by (cases a)
  from init_files_step[OF Cons.prems(1)[unfolded a]] show ?case
  proof (elim disjE conjE exE)
    assume "init_files dry r fl (rep\<lparr>existed := existed rep @ [rel]\<rparr>) fs = (res, fs')"
    from Cons.IH[OF this Cons.prems(2)] show ?thesis by auto
  next
    assume "init_files dry r fl (rep\<lparr>created := created rep @ [rel]\<rparr>) fs = (res, fs')"
    from Cons.IH[OF this Cons.prems(2)] show ?thesis by auto
  next
    assume "fs' = fs"
    with Cons.prems(2) show ?thesis by simp
  next
    assume ne: "\<not> existsSync fs (path_join r rel)"
      and run: "init_files dry r fl (rep\<lparr>created := created rep @ [rel]\<rparr>)
                  (fs(path_join r rel \<mapsto> File content)) = (res, fs')"
    from ne have none: "fs (path_join r rel) = None" by (simp add: existsSync_def)
    from Cons.IH[OF run Cons.prems(2)] none a show ?thesis
      by (auto split: if_splits)
  qed
qed

lemma init_files_frame:
  assumes "init_files dry r fl rep fs = (res, fs')" and "q \<notin> path_join r ` fst ` set fl"
  shows "fs' q = fs q"
proof (cases "fs q")
  case (Some n)
  with assms(1) show ?thesis by (simp add: init_files_mono)
next
  case None
  show ?thesis
  proof (cases "fs' q")
    case None
    with \<open>fs q = None\<close> show ?thesis by simp
  next
    case (Some n)
    from init_files_new[OF assms(1) Some] None assms(2) show ?thesis by auto
  qed
qed

lemma init_files_dry:
  "js_truthy dry \<Longrightarrow> init_files dry r fl rep fs =
     (Inr (rep\<lparr>created := created rep @ filter (\<lambda>rel. \<not> present fs r rel) (map fst fl),
               existed := existed rep @ filter (present fs r) (map fst fl)\<rparr>), fs)"
  by (induction fl arbitrary: rep) (auto simp: present_def Let_def)

lemma init_files_report:
  "init_files dry r fl rep fs = (Inr rep', fs') \<Longrightarrow> distinct (map (path_join r) (map fst fl)) \<Longrightarrow>
     rep' = rep\<lparr>created := created rep @ filter (\<lambda>rel. \<not> present fs r rel) (map fst fl),
               existed := existed rep @ filter (present fs r) (map fst fl)\<rparr>"
proof (induction fl arbitrary: rep fs)
  case Nil
  then show ?case by simp
next
  case (Cons a fl)
  obtain rel content where a: "a = (rel, content)" by (cases a)
  from Cons.prems(2) a have notin: "path_join r rel \<notin> set (map (path_join r) (map fst fl))"
    and dist: "distinct (map (path_join r) (map fst fl))" by simp_all
  from init_files_step[OF Cons.prems(1)[unfolded a]] show ?case
  proof (elim disjE conjE exE)
    assume ex: "existsSync fs (path_join r rel)"
      and run: "init_files dry r fl (rep\<lparr>existed := existed rep @ [rel]\<rparr>) fs = (Inr rep', fs')"
    from ex have p: "present fs r rel" by (simp add: present_def)
    from Cons.IH[OF run dist] p a show ?thesis by simp
  next
    assume ex: "\<not> existsSync fs (path_join r rel)"
      and run: "init_files dry r fl (rep\<lparr>created := created rep @ [rel]\<rparr>) fs = (Inr rep', fs')"
    from ex have p: "\<not> present fs r rel" by (simp add: present_def)
    from Cons.IH[OF run dist] p a show ?thesis by simp
  next
    fix e assume "Inr rep' = Inl e"
    then show ?thesis by simp
  next
    assume ex: "\<not> existsSync fs (path_join r rel)"
      and run: "init_files dry r fl (rep\<lparr>created := created rep @ [rel]\<rparr>)
                  (fs(path_join r rel \<mapsto> File content)) = (Inr rep', fs')"
    from ex have p: "\<not> present fs r rel" by (simp add: present_def)
    have same: "list_all (\<lambda>rel'. (fs(path_join r rel \<mapsto> File content)) (path_join r rel')
        = fs (path_join r rel')) (map fst fl)"
      using notin by (force simp: list_all_iff)
    from Cons.IH[OF run dist]
    have "rep' = rep\<lparr>created := created rep @ [rel]\<rparr>
          \<lparr>created := created (rep\<lparr>created := created rep @ [rel]\<rparr>)
              @ filter (\<lambda>rel'. \<not> present (fs(path_join r rel \<mapsto> File content)) r rel') (map fst fl),
           existed := existed (rep\<lparr>created := created rep @ [rel]\<rparr>)
              @ filter (present (fs(path_join r rel \<mapsto> File content)) r) (map fst fl)\<rparr>" .
    then show ?thesis
      unfolding filter_present_cong[OF same] using p a by simp
  qed
qed

lemma init_files_present_after:
  "init_files dry r fl rep fs = (Inr rep', fs') \<Longrightarrow> \<not> js_truthy dry
    \<Longrightarrow> list_all (present fs' r) (map fst fl)"
proof (induction fl arbitrary: rep fs)
  case Nil
  then show ?case by simp
next
  case (Cons a fl)
  obtain rel content where a: "a = (rel, content)" by (cases a)
  from init_files_step[OF Cons.prems(1)[unfolded a]] show ?case
  proof (elim disjE conjE exE)
    assume ex: "existsSync fs (path_join r rel)"
      and run: "init_files dry r fl (rep\<lparr>existed := existed rep @ [rel]\<rparr>) fs = (Inr rep', fs')"
    from ex obtain n where "fs (path_join r rel) = Some n" by (auto simp: existsSync_def)
    with run have "fs' (path_join r rel) = Some n" by (rule init_files_mono)
    with Cons.IH[OF run Cons.prems(2)] a show ?thesis by (simp add: present_def existsSync_def)
  next
    assume "js_truthy dry"
    with Cons.prems(2) show ?thesis by simp
  next
    fix e assume "Inr rep' = Inl e"
    then show ?thesis by simp
  next
    assume run: "init_files dry r fl (rep\<lparr>created := created rep @ [rel]\<rparr>)
                  (fs(path_join r rel \<mapsto> File content)) = (Inr rep', fs')"
    have "(fs(path_join r rel \<mapsto> File content)) (path_join r rel) = Some (File content)" by simp
    with run have "fs' (path_join r rel) = Some (File content)" by (rule init_files_mono)
    with Cons.IH[OF run Cons.prems(2)] a show ?thesis by (simp add: present_def existsSync_def)
  qed
qed

lemma init_files_all_present:
  "list_all (present fs r) (map fst fl) \<Longrightarrow>
     init_files dry r fl rep fs = (Inr (rep\<lparr>existed := existed rep @ map fst fl\<rparr>), fs)"
  by (induction fl arbitrary: rep) (auto simp: present_def Let_def)

section \<open>Runs of init\<close>

lemma path_join_memory: "path_join r ''memory'' = r @ [''memory'']"
  by (simp add: path_join_def)

lemma path_join_reflector: "path_join r ''memory/reflector'' = r @ [''memory'', ''reflector'']"
  by (simp add: path_join_def)

lemma path_join_weekly:
  "path_join r ''memory/reflector/weekly-summaries''
     = r @ [''memory'', ''reflector'', ''weekly-summaries'']"
  by (simp add: path_join_def)

lemma path_join_principles: "path_join r ''PRINCIPLES.md'' = r @ [''PRINCIPLES.md'']"
  by (simp add: path_join_def)

lemma path_join_outcomes:
  "path_join r ''memory/reflector/outcomes.jsonl'' = r @ [''memory'', ''reflector'', ''outcomes.jsonl'']"
  by (simp add: path_join_def)

lemma path_join_history:
  "path_join r ''memory/reflector/principles-history.jsonl''
     = r @ [''memory'', ''reflector'', ''principles-history.jsonl'']"
  by (simp add: path_join_def)

lemmas path_joins = path_join_memory path_join_reflector path_join_weekly path_join_principles
  path_join_outcomes path_join_history

lemma dirs_parents_first: "parents_first (map (path_join r) dirs)"
  by (simp add: dirs_def path_joins)

lemma dirs_nonempty: "list_all (\<lambda>rel. path_join r rel \<noteq> []) dirs"
  by (simp add: dirs_def path_joins)

lemma files_distinct: "distinct (map (path_join r) (map fst files))"
  by (simp add: files_def path_joins)

lemma files_not_dirs:
  "list_all (\<lambda>f. list_all (\<lambda>rel. \<not> prefix (path_join r f) (path_join r rel)) dirs) (map fst files)"
  by (simp add: files_def dirs_def path_joins)

lemma init_unfold:
  "init env opts fs =
     (case parseTime (resolved_dailyTime opts) of
        Inl e \<Rightarrow> (Inl e, fs)
      | Inr hm \<Rightarrow>
     (case parseTime (resolved_weeklyTime opts) of
        Inl e \<Rightarrow> (Inl e, fs)
      | Inr hm' \<Rightarrow>
     (case init_dirs (resolved_dryRun opts) (root_of env opts) dirs (empty_report env opts) fs of
        (Inl e, fs1) \<Rightarrow> (Inl e, fs1)
      | (Inr rep1, fs1) \<Rightarrow>
     (case init_files (resolved_dryRun opts) (root_of env opts) files rep1 fs1 of
        (Inl e, fs2) \<Rightarrow> (Inl e, fs2)
      | (Inr rep2, fs2) \<Rightarrow>
          if \<not> js_truthy (resolved_skipCron opts)
          then (case init_prompts env (resolved_timezone env opts) (resolved_dailyTime opts)
                       (resolved_weeklyTime opts) rep2 fs2 of
                  Inl e \<Rightarrow> (Inl e, fs2)
                | Inr rep3 \<Rightarrow> (Inr rep3, fs2))
          else (Inr rep2, fs2)))))"
  unfolding init_def Let_def resolved_dryRun_def resolved_skipCron_def resolved_timezone_def
    resolved_dailyTime_def resolved_weeklyTime_def empty_report_def root_of_def
  by (rule refl)

lemma init_prompts_lists:
  "init_prompts env tz d w rep fs = Inr rep' \<Longrightarrow> rep' = rep\<lparr>prompts := prompts rep'\<rparr>"
  by (auto simp: init_prompts_def split: sum.splits)

lemma init_prompts_any_report:
  "init_prompts env tz d w rep fs = Inr rep' \<Longrightarrow>
     init_prompts env tz d w rep2 fs = Inr (rep2\<lparr>prompts := prompts rep'\<rparr>)"
  by (auto simp: init_prompts_def split: sum.splits)

text \<open>A run that returns a report went through both loops.\<close>

lemma init_returns:
  assumes "init env opts fs = (Inr rep, fs')"
  obtains rep1 fs1 rep2 where
    "init_dirs (resolved_dryRun opts) (root_of env opts) dirs (empty_report env opts) fs = (Inr rep1, fs1)"
    and "init_files (resolved_dryRun opts) (root_of env opts) files rep1 fs1 = (Inr rep2, fs')"
    and "(js_truthy (resolved_skipCron opts) \<and> rep = rep2)
       \<or> (\<not> js_truthy (resolved_skipCron opts)
           \<and> init_prompts env (resolved_timezone env opts) (resolved_dailyTime opts)
                (resolved_weeklyTime opts) rep2 fs' = Inr rep)"
    and "\<not> isl (parseTime (resolved_dailyTime opts))"
    and "\<not> isl (parseTime (resolved_weeklyTime opts))"
  using assms unfolding init_unfold
  by (auto split: sum.splits prod.splits if_splits)

lemma init_mono:
  assumes "init env opts fs = (res, fs')" and "fs q = Some n"
  shows "fs' q = Some n"
proof -
  obtain res1 fs1 where d: "init_dirs (resolved_dryRun opts) (root_of env opts) dirs (empty_report env opts) fs = (res1, fs1)"
    by (cases "init_dirs (resolved_dryRun opts) (root_of env opts) dirs (empty_report env opts) fs")
  from d assms(2) have q1: "fs1 q = Some n" by (rule init_dirs_mono)
  have f: "init_files (resolved_dryRun opts) (root_of env opts) files rep1 fs1 = (res2, fs2) \<Longrightarrow> fs2 q = Some n"
    for rep1 res2 fs2 using q1 by (auto dest: init_files_mono)
  from assms(1) show ?thesis
    unfolding init_unfold using assms(2) d q1 f
    by (auto split: sum.splits prod.splits if_splits)
qed

lemma init_lists:
  assumes "init env opts fs = (Inr rep, fs')"
  shows "created rep = expected_created fs (root_of env opts)"
    and "existed rep = expected_existed fs (root_of env opts)"
proof -
  let ?r = "root_of env opts"
  from assms obtain rep1 fs1 rep2 where
    d: "init_dirs (resolved_dryRun opts) ?r dirs (empty_report env opts) fs = (Inr rep1, fs1)"
    and f: "init_files (resolved_dryRun opts) ?r files rep1 fs1 = (Inr rep2, fs')"
    and p: "(js_truthy (resolved_skipCron opts) \<and> rep = rep2)
       \<or> (\<not> js_truthy (resolved_skipCron opts)
           \<and> init_prompts env (resolved_timezone env opts) (resolved_dailyTime opts)
                (resolved_weeklyTime opts) rep2 fs' = Inr rep)"
    by (rule init_returns)
  have same: "list_all (\<lambda>rel. fs1 (path_join ?r rel) = fs (path_join ?r rel)) (map fst files)"
    using files_not_dirs[of ?r] init_dirs_frame[OF d]
    by (auto simp: list_all_iff)
  from init_dirs_report[OF d dirs_parents_first]
  have r1: "created rep1 = map dir_label (filter (\<lambda>rel. \<not> present fs ?r rel) dirs)"
    "existed rep1 = map dir_label (filter (present fs ?r) dirs)"
    by (simp_all add: empty_report_def)
  from init_files_report[OF f files_distinct]
  have r2: "created rep2 = created rep1 @ filter (\<lambda>rel. \<not> present fs1 ?r rel) (map fst files)"
    "existed rep2 = existed rep1 @ filter (present fs1 ?r) (map fst files)"
    by simp_all
  from p have r3: "created rep = created rep2 \<and> existed rep = existed rep2"
  proof
    assume "js_truthy (resolved_skipCron opts) \<and> rep = rep2"
    then show ?thesis by simp
  next
    assume "\<not> js_truthy (resolved_skipCron opts)
           \<and> init_prompts env (resolved_timezone env opts) (resolved_dailyTime opts)
                (resolved_weeklyTime opts) rep2 fs' = Inr rep"
    then have "rep = rep2\<lparr>prompts := prompts rep\<rparr>" by (auto dest: init_prompts_lists)
    then have "created rep = created (rep2\<lparr>prompts := prompts rep\<rparr>)"
      "existed rep = existed (rep2\<lparr>prompts := prompts rep\<rparr>)" by simp_all
    then show ?thesis by simp
  qed
  from r1 r2 r3 show "created rep = expected_created fs ?r"
    unfolding filter_present_cong[OF same] by (simp add: expected_created_def)
  from r1 r2 r3 show "existed rep = expected_existed fs ?r"
    unfolding filter_present_cong[OF same] by (simp add: expected_existed_def)
qed

lemma file_name_not_dir_label: "rel \<in> set (map fst files) \<Longrightarrow> rel \<notin> set (map dir_label dirs)"
  by (auto simp: files_def dirs_def dir_label_def)

text \<open>
  C3.  For every state of the file system in which a tracked file exists below the
  root as a regular file, whatever its content, a run of \<open>init\<close> leaves that file with
  the same content, whether the run returns a report or fails; and every report
  returned lists the file under \<open>existed\<close> and not under \<open>created\<close>.
\<close>

theorem init_keeps_existing_files:
  assumes "rel \<in> set (map fst files)"
    and "fs (path_join (root_of env opts) rel) = Some (File c)"
  shows "snd (init env opts fs) (path_join (root_of env opts) rel) = Some (File c)
    \<and> (\<forall>rep. fst (init env opts fs) = Inr rep \<longrightarrow>
           rel \<in> set (existed rep) \<and> rel \<notin> set (created rep))"
proof (intro conjI allI impI)
  obtain res fs' where run: "init env opts fs = (res, fs')" by (cases "init env opts fs")
  from init_mono[OF run assms(2)]
  show "snd (init env opts fs) (path_join (root_of env opts) rel) = Some (File c)"
    by (simp add: run)
  have pres: "present fs (root_of env opts) rel"
    using assms(2) by (simp add: present_def existsSync_def)
  fix rep assume "fst (init env opts fs) = Inr rep"
  with run have "init env opts fs = (Inr rep, fs')" by simp
  note l = init_lists[OF this]
  from l(2) assms(1) pres show "rel \<in> set (existed rep)"
    by (simp add: expected_existed_def)
  from l(1) pres file_name_not_dir_label[OF assms(1)] show "rel \<notin> set (created rep)"
    by (auto simp: expected_created_def)
qed

lemma js_or_truthy: "js_truthy a \<Longrightarrow> js_or a b = a"
  by (simp add: js_or_def)

lemma js_or_falsy: "\<not> js_truthy a \<Longrightarrow> js_or a b = b"
  by (simp add: js_or_def)

lemma init_dry_run_fs:
  assumes "js_truthy (opt_dryRun opts)"
  shows "snd (init env opts fs) = fs"
proof -
  from assms have dry: "js_truthy (resolved_dryRun opts)"
    by (simp add: resolved_dryRun_def js_or_truthy)
  show ?thesis
    unfolding init_unfold
    by (simp add: init_dirs_dry[OF dry] init_files_dry[OF dry] split: sum.splits)
qed

text \<open>The prompt files are none of the files that init writes.\<close>

lemma loadPrompt_before:
  assumes d: "init_dirs dry r dirs rep fs = (res1, fs1)"
    and f: "init_files dry r files rep1 fs1 = (res2, fs2)"
    and l: "loadPrompt env name fs2 = Inr c"
    and n: "name = ''daily-review.txt'' \<or> name = ''weekly-refinement.txt''"
  shows "loadPrompt env name fs = Inr c"
proof -
  let ?p = "path_join (prompts_dir env) name"
  from l have 2: "fs2 ?p = Some (File c)"
    by (auto simp: loadPrompt_def readFileSync_def split: option.splits node.splits)
  from n have last: "?p = prompts_dir env @ [name]" by (auto simp: path_join_def)
  have "?p \<notin> path_join r ` fst ` set files"
    unfolding last using n by (auto simp: files_def path_joins)
  with init_files_new[OF f 2] have 1: "fs1 ?p = Some (File c)" by auto
  from init_dirs_new[OF d 1] have "fs ?p = Some (File c)" by auto
  then show ?thesis by (simp add: loadPrompt_def readFileSync_def)
qed

lemma init_prompts_before:
  assumes d: "init_dirs dry r dirs rep fs = (res1, fs1)"
    and f: "init_files dry r files rep1 fs1 = (res2, fs2)"
    and p: "init_prompts env tz dt wt rep2 fs2 = Inr rep3"
  shows "init_prompts env tz dt wt rep' fs = Inr (rep'\<lparr>prompts := prompts rep3\<rparr>)"
proof -
  from p obtain c1 c2 where l: "loadPrompt env ''daily-review.txt'' fs2 = Inr c1"
    "loadPrompt env ''weekly-refinement.txt'' fs2 = Inr c2"
    by (auto simp: init_prompts_def split: sum.splits)
  have "loadPrompt env ''daily-review.txt'' fs = Inr c1"
    "loadPrompt env ''weekly-refinement.txt'' fs = Inr c2"
    using loadPrompt_before[OF d f l(1)] loadPrompt_before[OF d f l(2)] by simp_all
  with l have "init_prompts env tz dt wt rep' fs = init_prompts env tz dt wt rep' fs2"
    by (simp add: init_prompts_def)
  with init_prompts_any_report[OF p] show ?thesis by simp
qed

text \<open>
  C6.  When the dry-run flag is set, \<open>init\<close> leaves the file system exactly as it
  found it, for every starting state and whether or not it returns a report.
  Whenever the same call without the flag, from the same state, returns a report,
  the dry run returns a report too, with the same \<open>created\<close> and \<open>existed\<close> lists.
\<close>

theorem init_dry_run:
  assumes "js_truthy (opt_dryRun opts)" and "\<not> js_truthy d"
  shows "snd (init env opts fs) = fs
    \<and> (\<forall>rep'. fst (init env (opts\<lparr>opt_dryRun := d\<rparr>) fs) = Inr rep' \<longrightarrow>
          (\<exists>rep. fst (init env opts fs) = Inr rep
             \<and> created rep = created rep' \<and> existed rep = existed rep'))"
proof (intro conjI allI impI)
  show "snd (init env opts fs) = fs" using assms(1) by (rule init_dry_run_fs)
next
  let ?o = "opts\<lparr>opt_dryRun := d\<rparr>"
  let ?r = "root_of env opts"
  fix rep' assume "fst (init env ?o fs) = Inr rep'"
  then obtain fs' where run: "init env ?o fs = (Inr rep', fs')" by (cases "init env ?o fs") auto
  have same: "root_of env ?o = ?r" "resolved_skipCron ?o = resolved_skipCron opts"
    "resolved_timezone env ?o = resolved_timezone env opts"
    "resolved_dailyTime ?o = resolved_dailyTime opts"
    "resolved_weeklyTime ?o = resolved_weeklyTime opts"
    by (simp_all add: root_of_def resolved_skipCron_def resolved_timezone_def
        resolved_dailyTime_def resolved_weeklyTime_def)
  from run obtain rep1 fs1 rep2 where
    d: "init_dirs (resolved_dryRun ?o) ?r dirs (empty_report env ?o) fs = (Inr rep1, fs1)"
    and f: "init_files (resolved_dryRun ?o) ?r files rep1 fs1 = (Inr rep2, fs')"
    and p: "(js_truthy (resolved_skipCron opts) \<and> rep' = rep2)
       \<or> (\<not> js_truthy (resolved_skipCron opts)
           \<and> init_prompts env (resolved_timezone env opts) (resolved_dailyTime opts)
                (resolved_weeklyTime opts) rep2 fs' = Inr rep')"
    and t: "\<not> isl (parseTime (resolved_dailyTime opts))"
      "\<not> isl (parseTime (resolved_weeklyTime opts))"
    using init_returns[OF run] unfolding same by metis
  from assms(1) have dry: "js_truthy (resolved_dryRun opts)"
    by (simp add: resolved_dryRun_def js_or_truthy)
  obtain repd1 where dd: "init_dirs (resolved_dryRun opts) ?r dirs (empty_report env opts) fs
      = (Inr repd1, fs)"
    by (simp add: init_dirs_dry[OF dry])
  obtain repd2 where df: "init_files (resolved_dryRun opts) ?r files repd1 fs = (Inr repd2, fs)"
    by (simp add: init_files_dry[OF dry])
  have "\<exists>rep. init env opts fs = (Inr rep, fs)"
  proof (cases "js_truthy (resolved_skipCron opts)")
    case True
    with t dd df show ?thesis unfolding init_unfold by (auto split: sum.splits)
  next
    case False
    with p have "init_prompts env (resolved_timezone env opts) (resolved_dailyTime opts)
                (resolved_weeklyTime opts) rep2 fs' = Inr rep'" by simp
    from init_prompts_before[OF d f this]
    have "init_prompts env (resolved_timezone env opts) (resolved_dailyTime opts)
                (resolved_weeklyTime opts) repd2 fs = Inr (repd2\<lparr>prompts := prompts rep'\<rparr>)" .
    with False t dd df show ?thesis unfolding init_unfold by (auto split: sum.splits)
  qed
  then obtain rep where dryrun: "init env opts fs = (Inr rep, fs)" ..
  from init_lists[OF dryrun] init_lists[OF run] same(1)
  have "created rep = created rep' \<and> existed rep = existed rep'" by simp
  with dryrun show "\<exists>rep. fst (init env opts fs) = Inr rep
             \<and> created rep = created rep' \<and> existed rep = existed rep'" by simp
qed

lemma init_present_after:
  assumes "init env opts fs = (Inr rep, fs')" and "\<not> js_truthy (opt_dryRun opts)"
  shows "list_all (present fs' (root_of env opts)) dirs"
    and "list_all (present fs' (root_of env opts)) (map fst files)"
proof -
  let ?r = "root_of env opts"
  from assms(2) have nd: "\<not> js_truthy (resolved_dryRun opts)"
    by (simp add: resolved_dryRun_def js_or_falsy)
  from assms(1) obtain rep1 fs1 rep2 where
    d: "init_dirs (resolved_dryRun opts) ?r dirs (empty_report env opts) fs = (Inr rep1, fs1)"
    and f: "init_files (resolved_dryRun opts) ?r files rep1 fs1 = (Inr rep2, fs')"
    by (rule init_returns)
  from init_dirs_present_after[OF d nd dirs_nonempty]
  have "list_all (present fs1 ?r) dirs" .
  then show "list_all (present fs' ?r) dirs"
    using init_files_mono[OF f] by (auto simp: list_all_iff present_def existsSync_def)
  from init_files_present_after[OF f nd]
  show "list_all (present fs' ?r) (map fst files)" .
qed

lemma all_present_lists:
  assumes "list_all (present fs r) dirs" and "list_all (present fs r) (map fst files)"
  shows "expected_created fs r = []"
    and "expected_existed fs r = map dir_label dirs @ map fst files"
  using assms
  by (simp_all add: expected_created_def expected_existed_def list_all_iff filter_empty_conv filter_id_conv)

lemma nothing_present_lists:
  assumes "expected_existed fs r = []"
  shows "expected_created fs r = map dir_label dirs @ map fst files"
proof -
  from assms have "filter (present fs r) dirs = []" "filter (present fs r) (map fst files) = []"
    by (simp_all add: expected_existed_def)
  then have "filter (\<lambda>rel. \<not> present fs r rel) dirs = dirs"
    "filter (\<lambda>rel. \<not> present fs r rel) (map fst files) = map fst files"
    by (simp_all add: filter_empty_conv filter_id_conv)
  then show ?thesis by (simp add: expected_created_def)
qed

lemma expected_lists_cover:
  "set (expected_existed fs r) \<union> set (expected_created fs r)
     = set (map dir_label dirs @ map fst files)"
  by (auto simp: expected_existed_def expected_created_def)

lemma tracked_names:
  "map dir_label dirs @ map fst files =
     [''memory/'', ''memory/reflector/'', ''memory/reflector/weekly-summaries/'',
      ''PRINCIPLES.md'', ''memory/reflector/outcomes.jsonl'',
      ''memory/reflector/principles-history.jsonl'']"
  by (simp add: dirs_def files_def dir_label_def)

text \<open>
  C2, amended.  When a run of \<open>init\<close> without the dry-run flag returns a report, a
  second run with the same inputs on the resulting state returns a report as well and
  leaves that state exactly as it is, so every file keeps the content it had after the
  first run.  The second report has no created path, and its \<open>existed\<close> list is the
  whole tracked list: the paths the first run found together with those it created,
  which is the first run's \<open>created\<close> list when the first run found none.
\<close>

theorem init_idempotent:
  assumes "\<not> js_truthy (opt_dryRun opts)" and "init env opts fs = (Inr rep1, fs1)"
  shows "\<exists>rep2. init env opts fs1 = (Inr rep2, fs1)
    \<and> created rep2 = []
    \<and> existed rep2 =
        [''memory/'', ''memory/reflector/'', ''memory/reflector/weekly-summaries/'',
         ''PRINCIPLES.md'', ''memory/reflector/outcomes.jsonl'',
         ''memory/reflector/principles-history.jsonl'']
    \<and> set (existed rep2) = set (existed rep1) \<union> set (created rep1)
    \<and> (existed rep1 = [] \<longrightarrow> existed rep2 = created rep1)"
proof -
  let ?r = "root_of env opts"
  note pres = init_present_after[OF assms(2) assms(1)]
  from assms(2) obtain r1 f1 r2 where
    d: "init_dirs (resolved_dryRun opts) ?r dirs (empty_report env opts) fs = (Inr r1, f1)"
    and f: "init_files (resolved_dryRun opts) ?r files r1 f1 = (Inr r2, fs1)"
    and p: "(js_truthy (resolved_skipCron opts) \<and> rep1 = r2)
       \<or> (\<not> js_truthy (resolved_skipCron opts)
           \<and> init_prompts env (resolved_timezone env opts) (resolved_dailyTime opts)
                (resolved_weeklyTime opts) r2 fs1 = Inr rep1)"
    and t: "\<not> isl (parseTime (resolved_dailyTime opts))"
      "\<not> isl (parseTime (resolved_weeklyTime opts))"
    by (rule init_returns)
  have "\<exists>rep2. init env opts fs1 = (Inr rep2, fs1)"
  proof (cases "js_truthy (resolved_skipCron opts)")
    case True
    with t show ?thesis
      unfolding init_unfold
      by (auto simp: init_dirs_all_present[OF pres(1)] init_files_all_present[OF pres(2)]
          split: sum.splits)
  next
    case False
    with p have "init_prompts env (resolved_timezone env opts) (resolved_dailyTime opts)
                (resolved_weeklyTime opts) r2 fs1 = Inr rep1" by simp
    note init_prompts_any_report[OF this]
    with False t show ?thesis
      unfolding init_unfold
      by (auto simp: init_dirs_all_present[OF pres(1)] init_files_all_present[OF pres(2)]
          split: sum.splits)
  qed
  then obtain rep2 where run2: "init env opts fs1 = (Inr rep2, fs1)" ..
  note l1 = init_lists[OF assms(2)]
  note l2 = init_lists[OF run2]
  note a = all_present_lists[OF pres]
  have c2: "created rep2 = []" using l2(1) a(1) by simp
  have e2: "existed rep2 = map dir_label dirs @ map fst files" using l2(2) a(2) by simp
  have cover: "set (existed rep2) = set (existed rep1) \<union> set (created rep1)"
    unfolding e2 l1 by (rule expected_lists_cover[symmetric])
  have fresh: "existed rep1 = [] \<longrightarrow> existed rep2 = created rep1"
    unfolding e2 l1 using nothing_present_lists[of fs ?r] by simp
  from run2 c2 e2 cover fresh show ?thesis
    unfolding tracked_names by blast
qed

section \<open>Runs on the example states\<close>

lemmas init_eval = init_def Let_def js_or_def detectTimezone_def DEFAULTS_dailyTime_def
  DEFAULTS_weeklyTime_def parseTime_def time_regex_exec_def is_digit_def parseInt10_def
  dirs_def files_def path_joins existsSync_def mkdirSync_recursive_def writeFileSync_def
  dirname_def example_env_def example_opts_def fresh_root_def

lemma init_fresh_root:
  "init example_env example_opts fresh_root =
     (Inr \<lparr>root = [''w''], timezone = JStr ''UTC'', dailyTime = JStr ''03:30'',
           weeklyTime = JStr ''03:00'', dryRun = JBool False,
           created = [''memory/'', ''memory/reflector/'', ''memory/reflector/weekly-summaries/'',
             ''PRINCIPLES.md'', ''memory/reflector/outcomes.jsonl'',
             ''memory/reflector/principles-history.jsonl''],
           existed = [], prompts = None\<rparr>,
      fresh_root([''w'', ''memory''] \<mapsto> Dir, [''w'', ''memory'', ''reflector''] \<mapsto> Dir,
        [''w'', ''memory'', ''reflector'', ''weekly-summaries''] \<mapsto> Dir,
        [''w'', ''PRINCIPLES.md''] \<mapsto> File principlesTemplate,
        [''w'', ''memory'', ''reflector'', ''outcomes.jsonl''] \<mapsto> File '''',
        [''w'', ''memory'', ''reflector'', ''principles-history.jsonl''] \<mapsto> File ''''))"
  by (simp add: init_eval)

lemma init_memory_present:
  "init example_env example_opts (fresh_root([''w'', ''memory''] \<mapsto> Dir)) =
     (Inr \<lparr>root = [''w''], timezone = JStr ''UTC'', dailyTime = JStr ''03:30'',
           weeklyTime = JStr ''03:00'', dryRun = JBool False,
           created = [''memory/reflector/'', ''memory/reflector/weekly-summaries/'',
             ''PRINCIPLES.md'', ''memory/reflector/outcomes.jsonl'',
             ''memory/reflector/principles-history.jsonl''],
           existed = [''memory/''], prompts = None\<rparr>,
      fresh_root([''w'', ''memory''] \<mapsto> Dir, [''w'', ''memory'', ''reflector''] \<mapsto> Dir,
        [''w'', ''memory'', ''reflector'', ''weekly-summaries''] \<mapsto> Dir,
        [''w'', ''PRINCIPLES.md''] \<mapsto> File principlesTemplate,
        [''w'', ''memory'', ''reflector'', ''outcomes.jsonl''] \<mapsto> File '''',
        [''w'', ''memory'', ''reflector'', ''principles-history.jsonl''] \<mapsto> File ''''))"
  by (simp add: init_eval)

lemma init_after_first_run:
  "init example_env example_opts
     (fresh_root([''w'', ''memory''] \<mapsto> Dir, [''w'', ''memory'', ''reflector''] \<mapsto> Dir,
        [''w'', ''memory'', ''reflector'', ''weekly-summaries''] \<mapsto> Dir,
        [''w'', ''PRINCIPLES.md''] \<mapsto> File principlesTemplate,
        [''w'', ''memory'', ''reflector'', ''outcomes.jsonl''] \<mapsto> File '''',
        [''w'', ''memory'', ''reflector'', ''principles-history.jsonl''] \<mapsto> File '''')) =
     (Inr \<lparr>root = [''w''], timezone = JStr ''UTC'', dailyTime = JStr ''03:30'',
           weeklyTime = JStr ''03:00'', dryRun = JBool False,
           created = [],
           existed = [''memory/'', ''memory/reflector/'', ''memory/reflector/weekly-summaries/'',
             ''PRINCIPLES.md'', ''memory/reflector/outcomes.jsonl'',
             ''memory/reflector/principles-history.jsonl''],
           prompts = None\<rparr>,
      fresh_root([''w'', ''memory''] \<mapsto> Dir, [''w'', ''memory'', ''reflector''] \<mapsto> Dir,
        [''w'', ''memory'', ''reflector'', ''weekly-summaries''] \<mapsto> Dir,
        [''w'', ''PRINCIPLES.md''] \<mapsto> File principlesTemplate,
        [''w'', ''memory'', ''reflector'', ''outcomes.jsonl''] \<mapsto> File '''',
        [''w'', ''memory'', ''reflector'', ''principles-history.jsonl''] \<mapsto> File ''''))"
  by (simp add: init_eval)

lemma init_dry_fresh_root:
  "init example_env (example_opts\<lparr>opt_dryRun := JBool True\<rparr>) fresh_root =
     (Inr \<lparr>root = [''w''], timezone = JStr ''UTC'', dailyTime = JStr ''03:30'',
           weeklyTime = JStr ''03:00'', dryRun = JBool True,
           created = [''memory/'', ''memory/reflector/'', ''memory/reflector/weekly-summaries/'',
             ''PRINCIPLES.md'', ''memory/reflector/outcomes.jsonl'',
             ''memory/reflector/principles-history.jsonl''],
           existed = [], prompts = None\<rparr>,
      fresh_root)"
  by (simp add: init_eval)

lemma init_empty_daily_time:
  "init example_env (example_opts\<lparr>opt_dailyTime := JStr ''''\<rparr>) fresh_root =
     (Inr \<lparr>root = [''w''], timezone = JStr ''UTC'', dailyTime = JStr ''03:30'',
           weeklyTime = JStr ''03:00'', dryRun = JBool False,
           created = [''memory/'', ''memory/reflector/'', ''memory/reflector/weekly-summaries/'',
             ''PRINCIPLES.md'', ''memory/reflector/outcomes.jsonl'',
             ''memory/reflector/principles-history.jsonl''],
           existed = [], prompts = None\<rparr>,
      fresh_root([''w'', ''memory''] \<mapsto> Dir, [''w'', ''memory'', ''reflector''] \<mapsto> Dir,
        [''w'', ''memory'', ''reflector'', ''weekly-summaries''] \<mapsto> Dir,
        [''w'', ''PRINCIPLES.md''] \<mapsto> File principlesTemplate,
        [''w'', ''memory'', ''reflector'', ''outcomes.jsonl''] \<mapsto> File '''',
        [''w'', ''memory'', ''reflector'', ''principles-history.jsonl''] \<mapsto> File ''''))"
  by (simp add: init_eval)

theorem init_keeps_existing_files_witness:
  "''PRINCIPLES.md'' \<in> set (map fst files)
   \<and> (fresh_root([''w'', ''PRINCIPLES.md''] \<mapsto> File ''# My Custom Principles''))
        (path_join (root_of example_env example_opts) ''PRINCIPLES.md'')
       = Some (File ''# My Custom Principles'')
   \<and> snd (init example_env example_opts
            (fresh_root([''w'', ''PRINCIPLES.md''] \<mapsto> File ''# My Custom Principles'')))
        [''w'', ''PRINCIPLES.md'']
       = Some (File ''# My Custom Principles'')"
proof -
  have a: "''PRINCIPLES.md'' \<in> set (map fst files)" by (simp add: files_def)
  have b: "(fresh_root([''w'', ''PRINCIPLES.md''] \<mapsto> File ''# My Custom Principles''))
        (path_join (root_of example_env example_opts) ''PRINCIPLES.md'')
       = Some (File ''# My Custom Principles'')"
    by (simp add: root_of_def example_opts_def path_joins)
  have c: "path_join (root_of example_env example_opts) ''PRINCIPLES.md'' = [''w'', ''PRINCIPLES.md'']"
    by (simp add: root_of_def example_opts_def path_joins)
  from init_keeps_existing_files[of "''PRINCIPLES.md''"
      "fresh_root([''w'', ''PRINCIPLES.md''] \<mapsto> File ''# My Custom Principles'')"
      example_env example_opts "''# My Custom Principles''"] a b
  show ?thesis unfolding c by blast
qed

text \<open>
  C2, as stated, fails in two ways.  When the root already holds the directory
  \<^verbatim>\<open>memory\<close>, the first run lists it under \<open>existed\<close>, and the \<open>existed\<close> list of the
  second run, which holds all six tracked paths, is not the \<open>created\<close> list of the
  first.  And with the dry-run flag set nothing is created, so a second run on an
  empty root reports the same six created paths again.
\<close>

theorem init_idempotent_counterexample:
  "fst (init example_env example_opts (fresh_root([''w'', ''memory''] \<mapsto> Dir))) =
     Inr \<lparr>root = [''w''], timezone = JStr ''UTC'', dailyTime = JStr ''03:30'',
          weeklyTime = JStr ''03:00'', dryRun = JBool False,
          created = [''memory/reflector/'', ''memory/reflector/weekly-summaries/'',
            ''PRINCIPLES.md'', ''memory/reflector/outcomes.jsonl'',
            ''memory/reflector/principles-history.jsonl''],
          existed = [''memory/''], prompts = None\<rparr>
   \<and> fst (init example_env example_opts
          (snd (init example_env example_opts (fresh_root([''w'', ''memory''] \<mapsto> Dir))))) =
     Inr \<lparr>root = [''w''], timezone = JStr ''UTC'', dailyTime = JStr ''03:30'',
          weeklyTime = JStr ''03:00'', dryRun = JBool False,
          created = [],
          existed = [''memory/'', ''memory/reflector/'', ''memory/reflector/weekly-summaries/'',
            ''PRINCIPLES.md'', ''memory/reflector/outcomes.jsonl'',
            ''memory/reflector/principles-history.jsonl''],
          prompts = None\<rparr>
   \<and> fst (init example_env (example_opts\<lparr>opt_dryRun := JBool True\<rparr>)
          (snd (init example_env (example_opts\<lparr>opt_dryRun := JBool True\<rparr>) fresh_root))) =
     Inr \<lparr>root = [''w''], timezone = JStr ''UTC'', dailyTime = JStr ''03:30'',
          weeklyTime = JStr ''03:00'', dryRun = JBool True,
          created = [''memory/'', ''memory/reflector/'', ''memory/reflector/weekly-summaries/'',
            ''PRINCIPLES.md'', ''memory/reflector/outcomes.jsonl'',
            ''memory/reflector/principles-history.jsonl''],
          existed = [], prompts = None\<rparr>"
  by (simp add: init_memory_present init_after_first_run init_dry_fresh_root)

theorem init_idempotent_witness:
  "\<not> js_truthy (opt_dryRun example_opts)
   \<and> fst (init example_env example_opts fresh_root) =
       Inr \<lparr>root = [''w''], timezone = JStr ''UTC'', dailyTime = JStr ''03:30'',
           weeklyTime = JStr ''03:00'', dryRun = JBool False,
           created = [''memory/'', ''memory/reflector/'', ''memory/reflector/weekly-summaries/'',
             ''PRINCIPLES.md'', ''memory/reflector/outcomes.jsonl'',
             ''memory/reflector/principles-history.jsonl''],
           existed = [], prompts = None\<rparr>
   \<and> (\<exists>rep2. init example_env example_opts (snd (init example_env example_opts fresh_root))
          = (Inr rep2, snd (init example_env example_opts fresh_root))
        \<and> created rep2 = []
        \<and> existed rep2 =
           [''memory/'', ''memory/reflector/'', ''memory/reflector/weekly-summaries/'',
            ''PRINCIPLES.md'', ''memory/reflector/outcomes.jsonl'',
            ''memory/reflector/principles-history.jsonl''])"
proof -
  have nd: "\<not> js_truthy (opt_dryRun example_opts)" by (simp add: example_opts_def)
  from init_idempotent[OF nd init_fresh_root] nd show ?thesis
    unfolding init_fresh_root fst_conv snd_conv by blast
qed

theorem init_dry_run_witness:
  "js_truthy (opt_dryRun (example_opts\<lparr>opt_dryRun := JBool True\<rparr>)) \<and> \<not> js_truthy (JBool False)
   \<and> snd (init example_env (example_opts\<lparr>opt_dryRun := JBool True\<rparr>) fresh_root) = fresh_root
   \<and> (\<exists>rep. fst (init example_env (example_opts\<lparr>opt_dryRun := JBool True\<rparr>) fresh_root) = Inr rep
        \<and> created rep =
           [''memory/'', ''memory/reflector/'', ''memory/reflector/weekly-summaries/'',
            ''PRINCIPLES.md'', ''memory/reflector/outcomes.jsonl'',
            ''memory/reflector/principles-history.jsonl'']
        \<and> existed rep = [])"
proof -
  have a: "js_truthy (opt_dryRun (example_opts\<lparr>opt_dryRun := JBool True\<rparr>))" by simp
  have b: "\<not> js_truthy (JBool False)" by simp
  have c: "example_opts\<lparr>opt_dryRun := JBool True, opt_dryRun := JBool False\<rparr> = example_opts\<lparr>opt_dryRun := JBool False\<rparr>"
    by simp
  have d: "init example_env (example_opts\<lparr>opt_dryRun := JBool False\<rparr>) fresh_root
      = init example_env example_opts fresh_root"
    by (simp add: init_def example_opts_def js_or_def)
  from init_dry_run[OF a b, of example_env fresh_root] a b show ?thesis
    unfolding c d by (simp add: init_fresh_root)
qed

section \<open>Invalid times\<close>

text \<open>
  C4, as stated, fails: the empty string is not a valid time, yet a call whose daily
  time is the empty string does not fail.  The empty string is falsy, so the default
  \<^verbatim>\<open>03:30\<close> takes its place, and the run creates the tracked paths.
\<close>

theorem init_empty_time_counterexample:
  "parseTime (JStr '''') = Inl (InvalidFormat '''')
   \<and> fst (init example_env (example_opts\<lparr>opt_dailyTime := JStr ''''\<rparr>) fresh_root) =
       Inr \<lparr>root = [''w''], timezone = JStr ''UTC'', dailyTime = JStr ''03:30'',
           weeklyTime = JStr ''03:00'', dryRun = JBool False,
           created = [''memory/'', ''memory/reflector/'', ''memory/reflector/weekly-summaries/'',
             ''PRINCIPLES.md'', ''memory/reflector/outcomes.jsonl'',
             ''memory/reflector/principles-history.jsonl''],
           existed = [], prompts = None\<rparr>
   \<and> fresh_root [''w'', ''memory''] = None
   \<and> snd (init example_env (example_opts\<lparr>opt_dailyTime := JStr ''''\<rparr>) fresh_root)
        [''w'', ''memory''] = Some Dir"
  by (simp add: init_empty_daily_time)
    (simp add: parseTime_def time_regex_exec_def fresh_root_def)

text \<open>
  C4, amended.  For every call whose daily or weekly time, as resolved by \<open>init\<close>
  (the value given, or the default \<^verbatim>\<open>03:30\<close> or \<^verbatim>\<open>03:00\<close> when the value given is absent,
  empty or otherwise falsy), is rejected by \<open>parseTime\<close>, \<open>init\<close> fails with that
  error of \<open>parseTime\<close> and the file system is exactly as before: no directory has
  been created and no file written, whatever the state of the root.
\<close>

theorem init_invalid_time:
  assumes "isl (parseTime (resolved_dailyTime opts)) \<or> isl (parseTime (resolved_weeklyTime opts))"
  shows "\<exists>e. init env opts fs = (Inl e, fs)
    \<and> (parseTime (resolved_dailyTime opts) = Inl e \<or> parseTime (resolved_weeklyTime opts) = Inl e)
    \<and> ((\<exists>s. e = InvalidFormat s) \<or> (\<exists>h. e = InvalidHour h) \<or> (\<exists>m. e = InvalidMinute m))"
proof -
  have kinds: "(\<exists>s. e = InvalidFormat s) \<or> (\<exists>h. e = InvalidHour h) \<or> (\<exists>m. e = InvalidMinute m)"
    if "parseTime v = Inl e" for v e
    using that by (auto simp: parseTime_def Let_def split: option.splits prod.splits if_splits)
  show ?thesis
  proof (cases "parseTime (resolved_dailyTime opts)")
    case (Inl e)
    then have "init env opts fs = (Inl e, fs)" unfolding init_unfold by simp
    with Inl kinds[OF Inl] show ?thesis by blast
  next
    case (Inr hm)
    with assms obtain e where w: "parseTime (resolved_weeklyTime opts) = Inl e"
      by (cases "parseTime (resolved_weeklyTime opts)") auto
    with Inr have "init env opts fs = (Inl e, fs)" unfolding init_unfold by simp
    with w kinds[OF w] show ?thesis by blast
  qed
qed

theorem init_invalid_time_witness:
  "isl (parseTime (resolved_dailyTime (example_opts\<lparr>opt_dailyTime := JStr ''25:00''\<rparr>)))
   \<and> init example_env (example_opts\<lparr>opt_dailyTime := JStr ''25:00''\<rparr>) fresh_root
       = (Inl (InvalidHour 25), fresh_root)"
proof -
  have p: "parseTime (resolved_dailyTime (example_opts\<lparr>opt_dailyTime := JStr ''25:00''\<rparr>))
      = Inl (InvalidHour 25)"
    by (simp add: resolved_dailyTime_def js_or_def parseTime_def time_regex_exec_def is_digit_def
        parseInt10_def)
  have q: "\<not> isl (parseTime (resolved_weeklyTime (example_opts\<lparr>opt_dailyTime := JStr ''25:00''\<rparr>)))"
    by (simp add: resolved_weeklyTime_def example_opts_def js_or_def DEFAULTS_weeklyTime_def
        parseTime_def time_regex_exec_def is_digit_def parseInt10_def)
  have a: "isl (parseTime (resolved_dailyTime (example_opts\<lparr>opt_dailyTime := JStr ''25:00''\<rparr>)))"
    by (simp add: p)
  from init_invalid_time[of "example_opts\<lparr>opt_dailyTime := JStr ''25:00''\<rparr>" example_env fresh_root] a p q
  show ?thesis by auto
qed

section \<open>Reading back what JSON.stringify wrote\<close>

lemma hex_value_hex_digit: "d < 16 \<Longrightarrow> hex_value (hex_digit d) = Some d"
proof -
  assume "d < 16"
  then have "d = 0 \<or> d = 1 \<or> d = 2 \<or> d = 3 \<or> d = 4 \<or> d = 5 \<or> d = 6 \<or> d = 7 \<or> d = 8
      \<or> d = 9 \<or> d = 10 \<or> d = 11 \<or> d = 12 \<or> d = 13 \<or> d = 14 \<or> d = 15" by arith
  then show ?thesis by (elim disjE) (simp_all add: hex_value_def hex_digit_def)
qed

lemma hex_byte_hex_digits:
  assumes "n < 256"
  shows "hex_byte (hex_digit (n div 16)) (hex_digit (n mod 16)) = Some n"
proof -
  from assms have "n div 16 < 16" by simp
  moreover have "n mod 16 < 16" by simp
  ultimately show ?thesis by (simp add: hex_byte_def hex_value_hex_digit)
qed

lemma hex_byte_zero: "hex_byte CHR ''0'' CHR ''0'' = Some 0"
  by (simp add: hex_byte_def hex_value_def)

lemma parse_string_body_escape:
  "parse_string_body (json_escape_char c @ rest) =
     (case parse_string_body rest of None \<Rightarrow> None | Some (s, r) \<Rightarrow> Some (c # s, r))"
proof -
  consider (named) "c \<in> {CHR 0x22, CHR 0x5C, CHR 0x08, CHR 0x0C, CHR 0x0A, CHR 0x0D, CHR 0x09}"
    | (control) "c \<notin> {CHR 0x22, CHR 0x5C, CHR 0x08, CHR 0x0C, CHR 0x0A, CHR 0x0D, CHR 0x09}"
        "(of_char c :: nat) < 32"
    | (plain) "c \<notin> {CHR 0x22, CHR 0x5C, CHR 0x08, CHR 0x0C, CHR 0x0A, CHR 0x0D, CHR 0x09}"
        "\<not> (of_char c :: nat) < 32"
    by blast
  then show ?thesis
  proof cases
    case named
    then show ?thesis
      by (auto simp: json_escape_char_def json_unescape_def split: option.splits)
  next
    case control
    from control(2) have n: "(of_char c :: nat) < 256" by simp
    have ofc: "char_of (of_char c :: nat) = c" by simp
    from control show ?thesis
      by (simp add: json_escape_char_def hex_byte_zero hex_byte_hex_digits[OF n] ofc
          split: option.splits)
  next
    case plain
    then show ?thesis
      by (simp add: json_escape_char_def split: option.splits)
  qed
qed

lemma parse_string_body_quote:
  "parse_string_body (concat (map json_escape_char s) @ CHR 0x22 # rest) = Some (s, rest)"
  by (induction s) (simp_all add: parse_string_body_escape)

lemma is_digit_digit_char: "d < 10 \<Longrightarrow> is_digit (digit_char d)"
  by (simp add: is_digit_def of_char_digit_char)

lemma nat_to_string_digits: "list_all is_digit (nat_to_string n)"
proof (induction n rule: nat_to_string.induct)
  case (1 n)
  show ?case
  proof (cases "n < 10")
    case True
    then show ?thesis by (simp add: nat_to_string.simps is_digit_digit_char)
  next
    case False
    have "is_digit (digit_char (n mod 10))" by (simp add: is_digit_digit_char)
    with 1 False show ?thesis
      by (subst nat_to_string.simps) simp
  qed
qed

lemma nat_to_string_nonempty: "nat_to_string n \<noteq> []"
  by (subst nat_to_string.simps) simp

lemma takeWhile_digits:
  assumes "list_all is_digit ds" and "rest = [] \<or> \<not> is_digit (hd rest)"
  shows "takeWhile is_digit (ds @ rest) = ds" and "dropWhile is_digit (ds @ rest) = rest"
proof -
  from assms(2) have t: "takeWhile is_digit rest = []" and d: "dropWhile is_digit rest = rest"
    by (cases rest; auto)+
  from assms(1) show "takeWhile is_digit (ds @ rest) = ds"
    by (simp add: takeWhile_append2 list_all_iff t)
  from assms(1) show "dropWhile is_digit (ds @ rest) = rest"
    by (simp add: dropWhile_append2 list_all_iff d)
qed

lemma minus_not_digit: "\<not> is_digit CHR ''-''"
  by (simp add: is_digit_def)

lemma parse_number_num_to_string:
  assumes "rest = [] \<or> \<not> is_digit (hd rest)"
  shows "parse_number (num_to_string i @ rest) = Some (i, rest)"
proof (cases "i < 0")
  case True
  let ?ds = "nat_to_string (nat (- i))"
  note tw = takeWhile_digits[OF nat_to_string_digits assms, of "nat (- i)"]
  from True have "parseInt10 ?ds = - i" by (simp add: parseInt10_nat_to_string)
  with True show ?thesis
    by (simp add: parse_number_def num_to_string_def tw nat_to_string_nonempty Let_def
       )
next
  case False
  let ?ds = "nat_to_string (nat i)"
  note tw = takeWhile_digits[OF nat_to_string_digits assms, of "nat i"]
  obtain d ds where ds: "?ds = d # ds" using nat_to_string_nonempty[of "nat i"] by (cases ?ds) auto
  with nat_to_string_digits[of "nat i"] have "is_digit d" by simp
  with minus_not_digit have nm: "d \<noteq> CHR ''-''" by auto
  from False have "parseInt10 ?ds = i" by (simp add: parseInt10_nat_to_string)
  with False nm tw show ?thesis
    by (simp add: parse_number_def num_to_string_def ds Let_def)
qed

lemma num_to_string_head:
  "\<exists>c cs. num_to_string i = c # cs \<and> (is_digit c \<or> c = CHR ''-'')"
proof (cases "i < 0")
  case True
  then show ?thesis by (simp add: num_to_string_def)
next
  case False
  obtain d ds where ds: "nat_to_string (nat i) = d # ds"
    using nat_to_string_nonempty[of "nat i"] by (cases "nat_to_string (nat i)") auto
  with nat_to_string_digits[of "nat i"] have "is_digit d" by simp
  with False ds show ?thesis by (simp add: num_to_string_def)
qed

lemma parse_value_json_value:
  assumes "json_value v = Some t" and "rest = [] \<or> \<not> is_digit (hd rest)"
  shows "parse_value (t @ rest) = Some (v, rest)"
proof (cases v)
  case JUndefined
  with assms(1) show ?thesis by simp
next
  case JNull
  with assms(1) have t: "t = ''null''" by auto
  show ?thesis unfolding t using JNull by (simp add: parse_value_def)
next
  case (JBool b)
  with assms(1) have t: "t = (if b then ''true'' else ''false'')" by auto
  show ?thesis unfolding t using JBool by (cases b) (simp_all add: parse_value_def)
next
  case (JNum i)
  from num_to_string_head[of i] obtain c cs where h: "num_to_string i = c # cs"
    and k: "is_digit c \<or> c = CHR ''-''" by blast
  from k have "c \<noteq> CHR ''n''" "c \<noteq> CHR ''t''" "c \<noteq> CHR ''f''" "c \<noteq> CHR 0x22"
    by (auto simp: is_digit_def)
  then have "parse_value (num_to_string i @ rest) =
      (case parse_number (num_to_string i @ rest) of None \<Rightarrow> None | Some (n, r) \<Rightarrow> Some (JNum n, r))"
    by (simp add: parse_value_def h)
  moreover from JNum assms(1) have "t = num_to_string i" by simp
  ultimately show ?thesis using JNum by (simp add: parse_number_num_to_string[OF assms(2)])
next
  case (JStr s)
  with assms(1) have t: "t = CHR 0x22 # concat (map json_escape_char s) @ [CHR 0x22]"
    by (simp add: json_quote_def)
  show ?thesis
    unfolding t using JStr by (simp add: parse_value_def parse_string_body_quote)
qed

lemma json_members_map:
  "concat (map (\<lambda>(k, v). json_member k v) kvs) =
     map (\<lambda>(k, v). json_quote k @ '':'' @ the (json_value v))
       (filter (\<lambda>(k, v). json_value v \<noteq> None) kvs)"
  by (induction kvs) (auto simp: json_member_def split: option.splits)

lemma not_digit_separators: "\<not> is_digit CHR ''}''" "\<not> is_digit CHR '',''"
  by (simp_all add: is_digit_def)

lemma parse_member_step:
  assumes "json_value v = Some t" and "R \<noteq> []" and "\<not> is_digit (hd R)"
  shows "parse_members (Suc n) (json_quote k @ '':'' @ t @ R) =
     (if hd R = CHR ''}'' then Some ([(k, v)], tl R)
      else if hd R = CHR '','' then
        (case parse_members n (tl R) of None \<Rightarrow> None | Some (kvs, r) \<Rightarrow> Some ((k, v) # kvs, r))
      else None)"
proof -
  have s: "json_quote k @ '':'' @ t @ R
      = CHR 0x22 # concat (map json_escape_char k) @ CHR 0x22 # (CHR '':'' # t @ R)"
    by (simp add: json_quote_def)
  from assms have v: "parse_value (t @ R) = Some (v, R)"
    by (simp add: parse_value_json_value)
  show ?thesis
    unfolding s using assms(2) by (simp add: parse_string_body_quote v)
qed

declare parse_members.simps [simp del]

lemma parse_members_join:
  assumes "list_all (\<lambda>(k, v). json_value v \<noteq> None) kvs" and "kvs \<noteq> []" and "length kvs \<le> n"
  shows "parse_members n
      (join_with '','' (map (\<lambda>(k, v). json_quote k @ '':'' @ the (json_value v)) kvs)
         @ CHR ''}'' # rest) = Some (kvs, rest)"
  using assms
proof (induction kvs arbitrary: n)
  case Nil
  then show ?case by simp
next
  case (Cons kv kvs)
  obtain k v where kv: "kv = (k, v)" by (cases kv)
  from Cons.prems(1) kv obtain t where t: "json_value v = Some t" by auto
  from Cons.prems(3) obtain m where n: "n = Suc m" and m: "length kvs \<le> m" by (cases n) auto
  let ?f = "\<lambda>(k, v). json_quote k @ '':'' @ the (json_value v)"
  show ?case
  proof (cases kvs)
    case Nil
    have shape: "join_with '','' (map ?f (kv # kvs)) @ CHR ''}'' # rest
        = json_quote k @ '':'' @ t @ (CHR ''}'' # rest)"
      using Nil kv t by simp
    have "parse_members (Suc m) (json_quote k @ '':'' @ t @ (CHR ''}'' # rest)) = Some ([(k, v)], rest)"
      using parse_member_step[OF t, of "CHR ''}'' # rest" m k]
      by (simp add: not_digit_separators)
    then show ?thesis unfolding shape n using Nil kv by simp
  next
    case (Cons kv' kvs')
    let ?tail = "join_with '','' (map ?f kvs) @ CHR ''}'' # rest"
    have shape: "join_with '','' (map ?f (kv # kvs)) @ CHR ''}'' # rest
        = json_quote k @ '':'' @ t @ (CHR '','' # ?tail)"
      using Cons kv t by simp
    from Cons.prems(1) have "list_all (\<lambda>(k, v). json_value v \<noteq> None) kvs" by simp
    moreover from Cons have "kvs \<noteq> []" by simp
    ultimately have ih: "parse_members m ?tail = Some (kvs, rest)"
      using Cons.IH m by blast
    have "parse_members (Suc m) (json_quote k @ '':'' @ t @ (CHR '','' # ?tail))
        = (case parse_members m ?tail of None \<Rightarrow> None | Some (kvs, r) \<Rightarrow> Some ((k, v) # kvs, r))"
      using parse_member_step[OF t, of "CHR '','' # ?tail" m k]
      by (simp add: not_digit_separators)
    also have "\<dots> = Some ((k, v) # kvs, rest)" unfolding ih by simp
    finally show ?thesis unfolding shape n using kv by simp
  qed
qed

lemma join_with_length:
  assumes "list_all (\<lambda>x. x \<noteq> []) xs"
  shows "length xs \<le> length (join_with sep xs)"
  using assms
proof (induction sep xs rule: join_with.induct)
  case (1 sep)
  then show ?case by simp
next
  case (2 sep x)
  then show ?case by (cases x) simp_all
next
  case (3 sep x y ys)
  then show ?case by (cases x) simp_all
qed

lemma join_with_nonempty:
  "xs \<noteq> [] \<Longrightarrow> list_all (\<lambda>x. x \<noteq> []) xs \<Longrightarrow> join_with sep xs \<noteq> []"
  by (induction sep xs rule: join_with.induct) simp_all

lemma member_text_nonempty:
  "list_all (\<lambda>x. x \<noteq> []) (map (\<lambda>(k, v). json_quote k @ '':'' @ the (json_value v)) kvs)"
  by (induction kvs) (auto simp: json_quote_def)

lemma parse_object_members:
  assumes "list_all (\<lambda>(k, v). json_value v \<noteq> None) kvs"
  shows "parse_object
      (''{'' @ join_with '','' (map (\<lambda>(k, v). json_quote k @ '':'' @ the (json_value v)) kvs) @ ''}'')
     = Some kvs"
proof (cases "kvs = []")
  case True
  then show ?thesis by (simp add: parse_object_def)
next
  case False
  let ?body = "join_with '','' (map (\<lambda>(k, v). json_quote k @ '':'' @ the (json_value v)) kvs)"
  from False have "map (\<lambda>(k, v). json_quote k @ '':'' @ the (json_value v)) kvs \<noteq> []" by simp
  then have ne: "?body \<noteq> []"
    using member_text_nonempty[of kvs] by (rule join_with_nonempty)
  have len: "length kvs \<le> length (''{'' @ ?body @ ''}'')"
    using join_with_length[OF member_text_nonempty, of kvs "'',''"] by simp
  have "parse_members (length (''{'' @ ?body @ ''}'')) (?body @ CHR ''}'' # []) = Some (kvs, [])"
    using assms False len by (rule parse_members_join)
  with ne show ?thesis by (simp add: parse_object_def)
qed

lemma json_value_None: "json_value v = None \<longleftrightarrow> v = JUndefined"
  by (cases v) simp_all

lemma object_get_defined:
  assumes "distinct (map fst kvs)" and "(k, v) \<in> set kvs"
  shows "object_get (filter (\<lambda>(k, v). json_value v \<noteq> None) kvs) k = v"
proof -
  let ?ms = "filter (\<lambda>(k, v). json_value v \<noteq> None) kvs"
  from assms(1) have d: "distinct (map fst ?ms)" by (rule distinct_map_filter)
  then have dr: "distinct (map fst (rev ?ms))" by (simp add: rev_map[symmetric])
  show ?thesis
  proof (cases "json_value v = None")
    case True
    have "k \<notin> fst ` set ?ms"
    proof
      assume "k \<in> fst ` set ?ms"
      then obtain v' where in': "(k, v') \<in> set kvs" and def: "json_value v' \<noteq> None" by auto
      from assms have "map_of kvs k = Some v" by (simp add: map_of_eq_Some_iff)
      moreover from assms(1) in' have "map_of kvs k = Some v'" by (simp add: map_of_eq_Some_iff)
      ultimately have "v' = v" by simp
      with True def show False by simp
    qed
    then have "map_of (rev ?ms) k = None" by (simp add: map_of_eq_None_iff)
    with True show ?thesis by (simp add: object_get_def json_value_None)
  next
    case False
    with assms(2) have "(k, v) \<in> set (rev ?ms)" by simp
    with dr have "map_of (rev ?ms) k = Some v" by (rule map_of_is_SomeI)
    then show ?thesis by (simp add: object_get_def)
  qed
qed

lemma JSON_stringify_members:
  "JSON_stringify e =
     ''{'' @ join_with '',''
       (map (\<lambda>(k, v). json_quote k @ '':'' @ the (json_value v))
         (filter (\<lambda>(k, v). json_value v \<noteq> None) (entry_members e))) @ ''}''"
  by (simp only: JSON_stringify_def json_members_map)

text \<open>Every entry is read back from its line.\<close>

lemma parse_entry_JSON_stringify: "parse_entry (JSON_stringify e) = Some e"
proof -
  let ?ms = "filter (\<lambda>(k, v). json_value v \<noteq> None) (entry_members e)"
  have "list_all (\<lambda>(k, v). json_value v \<noteq> None) ?ms" by (simp add: list_all_iff)
  then have obj: "parse_object (JSON_stringify e) = Some ?ms"
    unfolding JSON_stringify_members by (rule parse_object_members)
  have dist: "distinct (map fst (entry_members e))" by (simp add: entry_members_def)
  have get: "object_get ?ms k = v" if "(k, v) \<in> set (entry_members e)" for k v
    using dist that by (rule object_get_defined)
  have "object_get ?ms ''timestamp'' = timestamp e" "object_get ?ms ''task'' = task e"
    "object_get ?ms ''channel'' = channel e" "object_get ?ms ''outputQuality'' = outputQuality e"
    "object_get ?ms ''delta'' = delta e" "object_get ?ms ''lesson'' = lesson e"
    "object_get ?ms ''principleCandidate'' = principleCandidate e"
    by (rule get, simp add: entry_members_def)+
  then show ?thesis by (simp add: parse_entry_def obj)
qed

section \<open>Lines\<close>

lemma hex_digit_not_newline: "d < 16 \<Longrightarrow> hex_digit d \<noteq> CHR 0x0A"
  using hex_value_hex_digit[of d] by (auto simp: hex_value_def)

lemma json_escape_char_no_newline: "CHR 0x0A \<notin> set (json_escape_char c)"
proof (cases "(of_char c :: nat) < 32")
  case True
  then have "(of_char c :: nat) div 16 < 16" by simp
  then have h1: "hex_digit (of_char c div 16) \<noteq> CHR 0x0A" by (rule hex_digit_not_newline)
  have "(of_char c :: nat) mod 16 < 16" by simp
  then have h2: "hex_digit (of_char c mod 16) \<noteq> CHR 0x0A" by (rule hex_digit_not_newline)
  from h1 h2 h1[symmetric] h2[symmetric] show ?thesis
    by (auto simp: json_escape_char_def)
next
  case False
  then have "c \<noteq> CHR 0x0A" by auto
  with False show ?thesis by (auto simp: json_escape_char_def)
qed

lemma json_quote_no_newline: "CHR 0x0A \<notin> set (json_quote s)"
  by (induction s) (auto simp: json_quote_def json_escape_char_no_newline)

lemma num_to_string_no_newline: "CHR 0x0A \<notin> set (num_to_string i)"
proof -
  have "\<not> is_digit CHR 0x0A" by (simp add: is_digit_def)
  then have "CHR 0x0A \<notin> set (nat_to_string n)" for n
    using nat_to_string_digits[of n] by (auto simp: list_all_iff)
  then show ?thesis by (simp add: num_to_string_def)
qed

lemma json_value_no_newline: "json_value v = Some t \<Longrightarrow> CHR 0x0A \<notin> set t"
  by (cases v) (auto simp: json_quote_no_newline num_to_string_no_newline split: if_splits)

lemma join_with_avoids:
  "d \<notin> set sep \<Longrightarrow> list_all (\<lambda>x. d \<notin> set x) xs \<Longrightarrow> d \<notin> set (join_with sep xs)"
  by (induction sep xs rule: join_with.induct) auto

lemma member_texts_no_newline:
  "list_all (\<lambda>x. CHR 0x0A \<notin> set x)
     (map (\<lambda>(k, v). json_quote k @ '':'' @ the (json_value v))
       (filter (\<lambda>(k, v). json_value v \<noteq> None) kvs))"
  by (induction kvs) (auto simp: json_quote_no_newline json_value_no_newline)

lemma JSON_stringify_no_newline: "CHR 0x0A \<notin> set (JSON_stringify e)"
proof -
  have "CHR 0x0A \<notin> set '',''" by simp
  then have "CHR 0x0A \<notin> set (join_with '',''
      (map (\<lambda>(k, v). json_quote k @ '':'' @ the (json_value v))
         (filter (\<lambda>(k, v). json_value v \<noteq> None) (entry_members e))))"
    using member_texts_no_newline by (rule join_with_avoids)
  then show ?thesis unfolding JSON_stringify_members by simp
qed

lemma JSON_stringify_nonempty: "JSON_stringify e \<noteq> []"
  by (simp add: JSON_stringify_def)

lemma split_on_line:
  "d \<notin> set x \<Longrightarrow> split_on d (x @ d # rest) = x # split_on d rest"
  by (induction x) auto

lemma log_lines_line:
  assumes "CHR 0x0A \<notin> set x" and "x \<noteq> []"
  shows "log_lines (x @ CHR 0x0A # rest) = x # log_lines rest"
  using assms by (simp add: log_lines_def split_on_line)

lemma log_lines_entries:
  "log_lines (concat (map (\<lambda>e. JSON_stringify e @ [CHR 0x0A]) es)) = map JSON_stringify es"
proof (induction es)
  case Nil
  then show ?case by (simp add: log_lines_def)
next
  case (Cons e es)
  then show ?case
    using log_lines_line[OF JSON_stringify_no_newline JSON_stringify_nonempty, of e]
    by simp
qed

section \<open>Appending to the log\<close>

lemma log_path_components: "log_path r = r @ [''memory'', ''reflector'', ''outcomes.jsonl'']"
  by (simp add: log_path_def path_join_def DEFAULT_LOG_DIR_def LOG_FILENAME_def)

lemma log_dir_components: "dirname (log_path r) = r @ [''memory'', ''reflector'']"
  by (simp add: log_path_components dirname_def butlast_append)

lemma log_path_not_in_dir: "\<not> prefix (log_path r) (dirname (log_path r))"
  by (simp add: log_path_components dirname_def butlast_append)

lemma prefix_dir_log_path: "prefix q (dirname (log_path r)) \<Longrightarrow> prefix q (log_path r)"
proof -
  assume "prefix q (dirname (log_path r))"
  moreover have "prefix (dirname (log_path r)) (log_path r)"
    by (simp add: log_path_components dirname_def butlast_append)
  ultimately show ?thesis by (rule prefix_order.trans)
qed

lemma is_file_iff: "is_file n \<longleftrightarrow> (\<exists>t. n = Some (File t))"
  by (cases n rule: is_file.cases) simp_all

lemma mkdir_from_succeeds:
  "(\<And>q. prefix q (pre @ cs) \<Longrightarrow> \<not> is_file (fs q)) \<Longrightarrow> \<exists>fs'. mkdir_from pre cs fs = (Inr (), fs')"
proof (induction cs arbitrary: pre fs)
  case Nil
  then show ?case by simp
next
  case (Cons c cs)
  have "prefix (pre @ [c]) (pre @ c # cs)" by simp
  then have nf: "\<not> is_file (fs (pre @ [c]))" by (rule Cons.prems)
  show ?case
  proof (cases "fs (pre @ [c])")
    case None
    have "\<exists>fs'. mkdir_from (pre @ [c]) cs (fs(pre @ [c] \<mapsto> Dir)) = (Inr (), fs')"
    proof (rule Cons.IH)
      fix q assume "prefix q ((pre @ [c]) @ cs)"
      then show "\<not> is_file ((fs(pre @ [c] \<mapsto> Dir)) q)" using Cons.prems[of q] by simp
    qed
    with None show ?thesis by simp
  next
    case (Some n)
    with nf have n: "n = Dir" by (cases n) simp_all
    have "\<exists>fs'. mkdir_from (pre @ [c]) cs fs = (Inr (), fs')"
    proof (rule Cons.IH)
      fix q assume "prefix q ((pre @ [c]) @ cs)"
      then show "\<not> is_file (fs q)" using Cons.prems[of q] by simp
    qed
    with Some n show ?thesis by simp
  qed
qed

lemma appendEntry_unfold:
  "appendEntry env e opts_root fs =
     (case (if \<not> existsSync fs (dirname (log_path (log_root env opts_root)))
            then mkdirSync_recursive (dirname (log_path (log_root env opts_root))) fs
            else (Inr (), fs)) of
        (Inl err, fs1) \<Rightarrow> (Inl err, fs1)
      | (Inr u, fs1) \<Rightarrow>
     (case appendFileSync (log_path (log_root env opts_root)) (JSON_stringify e @ [CHR 0x0A]) fs1 of
        (Inl err, fs2) \<Rightarrow> (Inl err, fs2)
      | (Inr u', fs2) \<Rightarrow> (Inr (log_path (log_root env opts_root)), fs2)))"
  unfolding appendEntry_def Let_def log_root_def log_path_def by (rule refl)

lemma appendEntry_appendable:
  assumes "appendable fs (log_root env opts_root)"
  shows "\<exists>fs'. appendEntry env e opts_root fs = (Inr (log_path (log_root env opts_root)), fs')
    \<and> fs' (log_path (log_root env opts_root))
        = Some (File (log_text fs (log_root env opts_root) @ JSON_stringify e @ [CHR 0x0A]))
    \<and> fs' (dirname (log_path (log_root env opts_root))) = Some Dir
    \<and> (\<forall>q. \<not> prefix q (log_path (log_root env opts_root)) \<longrightarrow> fs' q = fs q)
    \<and> (\<forall>q n. fs q = Some n \<and> q \<noteq> log_path (log_root env opts_root) \<longrightarrow> fs' q = Some n)
    \<and> appendable fs' (log_root env opts_root)"
proof -
  let ?r = "log_root env opts_root"
  let ?lp = "log_path ?r"
  let ?dir = "dirname ?lp"
  let ?data = "JSON_stringify e @ [CHR 0x0A]"
  from assms have nofile: "\<not> is_file (fs q)" if "prefix q ?dir" for q
    using that by (auto simp: appendable_def list_all_iff)
  from assms have nodir: "fs ?lp \<noteq> Some Dir" by (simp add: appendable_def)
  have dne: "?dir \<noteq> []" by (simp add: log_dir_components)
  have lpne: "?lp \<noteq> ?dir" by (simp add: log_path_components dirname_def butlast_append)
  \<comment> \<open>the directory step\<close>
  obtain fs1 where step1:
      "(if \<not> existsSync fs ?dir then mkdirSync_recursive ?dir fs else (Inr (), fs)) = (Inr (), fs1)"
    and dir1: "fs1 ?dir = Some Dir"
    and frame1: "\<And>q. \<not> prefix q ?dir \<Longrightarrow> fs1 q = fs q"
    and mono1: "\<And>q n. fs q = Some n \<Longrightarrow> fs1 q = Some n"
    and new1: "\<And>q n. fs1 q = Some n \<Longrightarrow> fs q = Some n \<or> n = Dir"
  proof (cases "existsSync fs ?dir")
    case True
    then obtain n where n: "fs ?dir = Some n" by (auto simp: existsSync_def)
    with nofile[of ?dir] have "n = Dir" by (cases n) simp_all
    with True n that[of fs] show ?thesis by simp
  next
    case False
    have "\<exists>fs'. mkdir_from [] ?dir fs = (Inr (), fs')"
      using nofile by (intro mkdir_from_succeeds) simp
    then obtain fs1 where m: "mkdirSync_recursive ?dir fs = (Inr (), fs1)"
      by (auto simp: mkdirSync_recursive_def)
    from mkdirSync_recursive_success[OF m dne] have d: "fs1 ?dir = Some Dir" .
    have f: "fs1 q = fs q" if "\<not> prefix q ?dir" for q
      using m that by (rule mkdirSync_recursive_frame)
    have mo: "fs1 q = Some n" if "fs q = Some n" for q n
      using m that by (rule mkdirSync_recursive_mono)
    have ne: "fs q = Some n \<or> n = Dir" if "fs1 q = Some n" for q n
      using mkdirSync_recursive_new[OF m that] by auto
    from False m d f mo ne that[of fs1] show ?thesis by simp
  qed
  from frame1[OF log_path_not_in_dir] have lp1: "fs1 ?lp = fs ?lp" .
  with nodir have nodir1: "fs1 ?lp \<noteq> Some Dir" by simp
  let ?fs2 = "fs1(?lp \<mapsto> File (log_text fs ?r @ ?data))"
  have step2: "appendFileSync ?lp ?data fs1 = (Inr (), ?fs2)"
    using dir1 nodir1 lp1
    by (auto simp: appendFileSync_def log_text_def split: option.splits node.splits)
  have run: "appendEntry env e opts_root fs = (Inr ?lp, ?fs2)"
    unfolding appendEntry_unfold step1 using step2 by simp
  have frame2: "?fs2 q = fs q" if "\<not> prefix q ?lp" for q
  proof -
    from that have "q \<noteq> ?lp" by auto
    moreover from that have "\<not> prefix q ?dir" using prefix_dir_log_path by blast
    ultimately show ?thesis using frame1 by simp
  qed
  have mono2: "?fs2 q = Some n" if "fs q = Some n" "q \<noteq> ?lp" for q n
    using that mono1 by simp
  have app2: "appendable ?fs2 ?r"
  proof -
    have "\<not> is_file (?fs2 q)" if "prefix q ?dir" for q
    proof -
      from that log_path_not_in_dir have "q \<noteq> ?lp" by auto
      then have eq: "?fs2 q = fs1 q" by simp
      show ?thesis
      proof (cases "fs1 q")
        case None
        with eq show ?thesis by simp
      next
        case (Some n)
        from new1[OF Some] nofile[OF that] Some eq show ?thesis
          by (auto simp: is_file_iff)
      qed
    qed
    then show ?thesis by (simp add: appendable_def list_all_iff)
  qed
  from run dir1 lpne frame2 mono2 app2 show ?thesis by auto
qed

lemma append_all_appendable:
  assumes "appendable fs (log_root env opts_root)"
  shows "\<exists>fs'. append_all env es opts_root fs = (Inr (), fs')
    \<and> fs' (log_path (log_root env opts_root))
        = (if es = [] then fs (log_path (log_root env opts_root))
           else Some (File (log_text fs (log_root env opts_root)
                  @ concat (map (\<lambda>e. JSON_stringify e @ [CHR 0x0A]) es))))"
  using assms
proof (induction es arbitrary: fs)
  case Nil
  then show ?case by simp
next
  case (Cons e es)
  let ?r = "log_root env opts_root"
  from appendEntry_appendable[OF Cons.prems, of e] obtain fs1 where
    a: "appendEntry env e opts_root fs = (Inr (log_path ?r), fs1)"
    and c: "fs1 (log_path ?r) = Some (File (log_text fs ?r @ JSON_stringify e @ [CHR 0x0A]))"
    and ap: "appendable fs1 ?r" by blast
  from Cons.IH[OF ap] obtain fs2 where
    b: "append_all env es opts_root fs1 = (Inr (), fs2)"
    and d: "fs2 (log_path ?r) = (if es = [] then fs1 (log_path ?r)
           else Some (File (log_text fs1 ?r @ concat (map (\<lambda>e. JSON_stringify e @ [CHR 0x0A]) es))))"
    by blast
  from c have t1: "log_text fs1 ?r = log_text fs ?r @ JSON_stringify e @ [CHR 0x0A]"
    by (simp add: log_text_def)
  from a b have "append_all env (e # es) opts_root fs = (Inr (), fs2)" by simp
  moreover from c d t1 have "fs2 (log_path ?r) =
      Some (File (log_text fs ?r @ concat (map (\<lambda>e. JSON_stringify e @ [CHR 0x0A]) (e # es))))"
    by simp
  ultimately show ?case by simp
qed

text \<open>
  C9.  In every state in which the log can be appended to (no regular file stands
  in the place of the log directory or of a directory above it, and the log is not a
  directory), \<open>appendEntry\<close> returns the log path
  \<^verbatim>\<open>memory/reflector/outcomes.jsonl\<close> below the root, and afterwards the
  log file holds its former text, or nothing when it was absent, followed by the
  serialized entry and one line feed; the log directory exists; every path that is
  not the log or a directory above it is as before, and nothing that existed is
  lost.  The serialized entry holds no line feed and is read back as the entry.
  Starting without a log, any number of entries appended one after the other all
  succeed, and the log then has exactly one line for each entry, in call order, each
  line read back as its entry.
\<close>

theorem appendEntry_appends_one_line:
  assumes "appendable fs (log_root env opts_root)"
  shows "(\<exists>fs'. appendEntry env e opts_root fs = (Inr (log_path (log_root env opts_root)), fs')
        \<and> fs' (log_path (log_root env opts_root))
            = Some (File (log_text fs (log_root env opts_root) @ JSON_stringify e @ [CHR 0x0A]))
        \<and> fs' (dirname (log_path (log_root env opts_root))) = Some Dir
        \<and> (\<forall>q. \<not> prefix q (log_path (log_root env opts_root)) \<longrightarrow> fs' q = fs q)
        \<and> (\<forall>q n. fs q = Some n \<and> q \<noteq> log_path (log_root env opts_root) \<longrightarrow> fs' q = Some n))
    \<and> log_path (log_root env opts_root)
        = log_root env opts_root @ [''memory'', ''reflector'', ''outcomes.jsonl'']
    \<and> CHR 0x0A \<notin> set (JSON_stringify e)
    \<and> parse_entry (JSON_stringify e) = Some e
    \<and> (fs (log_path (log_root env opts_root)) = None \<longrightarrow>
         (\<exists>fs'. append_all env es opts_root fs = (Inr (), fs')
            \<and> log_text fs' (log_root env opts_root)
                = concat (map (\<lambda>e. JSON_stringify e @ [CHR 0x0A]) es)
            \<and> log_lines (log_text fs' (log_root env opts_root)) = map JSON_stringify es
            \<and> length (log_lines (log_text fs' (log_root env opts_root))) = length es
            \<and> map parse_entry (log_lines (log_text fs' (log_root env opts_root))) = map Some es))"
proof -
  let ?r = "log_root env opts_root"
  have one: "\<exists>fs'. appendEntry env e opts_root fs = (Inr (log_path ?r), fs')
        \<and> fs' (log_path ?r) = Some (File (log_text fs ?r @ JSON_stringify e @ [CHR 0x0A]))
        \<and> fs' (dirname (log_path ?r)) = Some Dir
        \<and> (\<forall>q. \<not> prefix q (log_path ?r) \<longrightarrow> fs' q = fs q)
        \<and> (\<forall>q n. fs q = Some n \<and> q \<noteq> log_path ?r \<longrightarrow> fs' q = Some n)"
    using appendEntry_appendable[OF assms, of e] by blast
  have many: "\<exists>fs'. append_all env es opts_root fs = (Inr (), fs')
            \<and> log_text fs' ?r = concat (map (\<lambda>e. JSON_stringify e @ [CHR 0x0A]) es)
            \<and> log_lines (log_text fs' ?r) = map JSON_stringify es
            \<and> length (log_lines (log_text fs' ?r)) = length es
            \<and> map parse_entry (log_lines (log_text fs' ?r)) = map Some es"
    if none: "fs (log_path ?r) = None"
  proof -
    from append_all_appendable[OF assms, of es] obtain fs' where
      run: "append_all env es opts_root fs = (Inr (), fs')"
      and lp: "fs' (log_path ?r) = (if es = [] then fs (log_path ?r)
           else Some (File (log_text fs ?r @ concat (map (\<lambda>e. JSON_stringify e @ [CHR 0x0A]) es))))"
      by blast
    from none have "log_text fs ?r = []" by (simp add: log_text_def)
    with lp none have t: "log_text fs' ?r = concat (map (\<lambda>e. JSON_stringify e @ [CHR 0x0A]) es)"
      by (simp add: log_text_def)
    have l: "log_lines (log_text fs' ?r) = map JSON_stringify es"
      unfolding t by (rule log_lines_entries)
    have p: "map parse_entry (log_lines (log_text fs' ?r)) = map Some es"
      unfolding l by (simp add: parse_entry_JSON_stringify)
    from run t l p show ?thesis by simp
  qed
  from one many JSON_stringify_no_newline[of e] parse_entry_JSON_stringify[of e]
    log_path_components[of ?r]
  show ?thesis by blast
qed

theorem appendEntry_appends_one_line_witness:
  "appendable fresh_root (log_root example_env (Some [''w'']))
   \<and> fresh_root (log_path (log_root example_env (Some [''w'']))) = None
   \<and> (\<exists>fs'. append_all example_env
          [\<lparr>timestamp = JStr ''2026-01-15T10:00:00.000Z'', task = JStr ''first'', channel = JNull,
            outputQuality = JStr ''praise'', delta = JNull, lesson = JNull,
            principleCandidate = JBool False\<rparr>,
           \<lparr>timestamp = JStr ''2026-01-15T10:00:01.000Z'', task = JStr ''second'', channel = JNull,
            outputQuality = JStr ''edit'', delta = JNull, lesson = JNull,
            principleCandidate = JBool False\<rparr>]
          (Some [''w'']) fresh_root = (Inr (), fs')
        \<and> map parse_entry (log_lines (log_text fs' [''w''])) =
          [Some \<lparr>timestamp = JStr ''2026-01-15T10:00:00.000Z'', task = JStr ''first'',
                 channel = JNull, outputQuality = JStr ''praise'', delta = JNull, lesson = JNull,
                 principleCandidate = JBool False\<rparr>,
           Some \<lparr>timestamp = JStr ''2026-01-15T10:00:01.000Z'', task = JStr ''second'',
                 channel = JNull, outputQuality = JStr ''edit'', delta = JNull, lesson = JNull,
                 principleCandidate = JBool False\<rparr>])"
proof -
  have r: "log_root example_env (Some [''w'']) = [''w'']" by (simp add: log_root_def)
  have a: "appendable fresh_root (log_root example_env (Some [''w'']))"
    unfolding r by (simp add: appendable_def log_path_components fresh_root_def list_all_iff)
  have b: "fresh_root (log_path (log_root example_env (Some [''w'']))) = None"
    unfolding r by (simp add: log_path_components fresh_root_def)
  let ?es = "[\<lparr>timestamp = JStr ''2026-01-15T10:00:00.000Z'', task = JStr ''first'', channel = JNull,
            outputQuality = JStr ''praise'', delta = JNull, lesson = JNull,
            principleCandidate = JBool False\<rparr>,
           \<lparr>timestamp = JStr ''2026-01-15T10:00:01.000Z'', task = JStr ''second'', channel = JNull,
            outputQuality = JStr ''edit'', delta = JNull, lesson = JNull,
            principleCandidate = JBool False\<rparr>]"
  note th = appendEntry_appends_one_line[OF a, of "hd ?es" ?es]
  from th[unfolded r] b[unfolded r] obtain fs' where
    "append_all example_env ?es (Some [''w'']) fresh_root = (Inr (), fs')"
    and "map parse_entry (log_lines (log_text fs' [''w''])) = map Some ?es"
    by blast
  then have "\<exists>fs'. append_all example_env ?es (Some [''w'']) fresh_root = (Inr (), fs')
      \<and> map parse_entry (log_lines (log_text fs' [''w''])) = map Some ?es"
    by blast
  with a b show ?thesis by (simp del: append_all.simps)
qed

end
